theory Spec2Isabelle
  imports Complex_Main
begin

section \<open>JavaScript numbers\<close>

text \<open>
  A JavaScript number is a finite value, one of the two infinities, or NaN. The finite
  values are taken as real numbers and the arithmetic on them is exact: rounding, overflow
  to an infinity and the sign of zero are not part of this model (a division of a non-zero
  finite value by zero gives the infinity with the sign of the dividend). Everything else
  follows the language: NaN is absorbing and compares false with everything, infinities
  follow IEEE 754.
\<close>

datatype number = Fin real | PosInf | NegInf | NaN

datatype error = TypeError

fun isFinite :: "number \<Rightarrow> bool" where
  "isFinite (Fin x) = True"
| "isFinite PosInf = False"
| "isFinite NegInf = False"
| "isFinite NaN = False"

fun js_neg :: "number \<Rightarrow> number" where
  "js_neg (Fin x) = Fin (- x)"
| "js_neg PosInf = NegInf"
| "js_neg NegInf = PosInf"
| "js_neg NaN = NaN"

fun js_add :: "number \<Rightarrow> number \<Rightarrow> number" where
  "js_add (Fin x) (Fin y) = Fin (x + y)"
| "js_add (Fin x) PosInf = PosInf"
| "js_add (Fin x) NegInf = NegInf"
| "js_add (Fin x) NaN = NaN"
| "js_add PosInf (Fin y) = PosInf"
| "js_add PosInf PosInf = PosInf"
| "js_add PosInf NegInf = NaN"
| "js_add PosInf NaN = NaN"
| "js_add NegInf (Fin y) = NegInf"
| "js_add NegInf PosInf = NaN"
| "js_add NegInf NegInf = NegInf"
| "js_add NegInf NaN = NaN"
| "js_add NaN b = NaN"

definition js_sub :: "number \<Rightarrow> number \<Rightarrow> number" where
  "js_sub a b = js_add a (js_neg b)"

fun js_mul :: "number \<Rightarrow> number \<Rightarrow> number" where
  "js_mul (Fin x) (Fin y) = Fin (x * y)"
| "js_mul (Fin x) PosInf = (if x = 0 then NaN else if 0 < x then PosInf else NegInf)"
| "js_mul (Fin x) NegInf = (if x = 0 then NaN else if 0 < x then NegInf else PosInf)"
| "js_mul (Fin x) NaN = NaN"
| "js_mul PosInf (Fin y) = (if y = 0 then NaN else if 0 < y then PosInf else NegInf)"
| "js_mul PosInf PosInf = PosInf"
| "js_mul PosInf NegInf = NegInf"
| "js_mul PosInf NaN = NaN"
| "js_mul NegInf (Fin y) = (if y = 0 then NaN else if 0 < y then NegInf else PosInf)"
| "js_mul NegInf PosInf = NegInf"
| "js_mul NegInf NegInf = PosInf"
| "js_mul NegInf NaN = NaN"
| "js_mul NaN b = NaN"

fun js_div :: "number \<Rightarrow> number \<Rightarrow> number" where
  "js_div (Fin x) (Fin y) =
     (if y = 0 then (if x = 0 then NaN else if 0 < x then PosInf else NegInf)
      else Fin (x / y))"
| "js_div (Fin x) PosInf = Fin 0"
| "js_div (Fin x) NegInf = Fin 0"
| "js_div (Fin x) NaN = NaN"
| "js_div PosInf (Fin y) = (if 0 \<le> y then PosInf else NegInf)"
| "js_div PosInf PosInf = NaN"
| "js_div PosInf NegInf = NaN"
| "js_div PosInf NaN = NaN"
| "js_div NegInf (Fin y) = (if 0 \<le> y then NegInf else PosInf)"
| "js_div NegInf PosInf = NaN"
| "js_div NegInf NegInf = NaN"
| "js_div NegInf NaN = NaN"
| "js_div NaN b = NaN"

text \<open>The comparison \<open>a < b\<close>.\<close>

fun js_lt :: "number \<Rightarrow> number \<Rightarrow> bool" where
  "js_lt (Fin x) (Fin y) = (x < y)"
| "js_lt (Fin x) PosInf = True"
| "js_lt (Fin x) NegInf = False"
| "js_lt (Fin x) NaN = False"
| "js_lt PosInf b = False"
| "js_lt NegInf (Fin y) = True"
| "js_lt NegInf PosInf = True"
| "js_lt NegInf NegInf = False"
| "js_lt NegInf NaN = False"
| "js_lt NaN b = False"

text \<open>\<open>a > b\<close> is \<open>b < a\<close>; \<open>a >= b\<close> is false when an operand is NaN and is the
  negation of \<open>a < b\<close> otherwise; \<open>a === b\<close> is false when an operand is NaN.\<close>

definition js_gt :: "number \<Rightarrow> number \<Rightarrow> bool" where
  "js_gt a b = js_lt b a"

definition js_ge :: "number \<Rightarrow> number \<Rightarrow> bool" where
  "js_ge a b = (a \<noteq> NaN \<and> b \<noteq> NaN \<and> \<not> js_lt a b)"

definition js_seq :: "number \<Rightarrow> number \<Rightarrow> bool" where
  "js_seq a b = (a \<noteq> NaN \<and> b \<noteq> NaN \<and> a = b)"

section \<open>The curve and the iterator\<close>

text \<open>
  Modelled from the spec: the constants \<open>pc.CURVE_*\<close> are declared outside the files at
  hand; the spec lists the six interpolation kinds Step, Linear, Smoothstep, CatmullRom,
  Cardinal and CardinalStable, which are the constants the iterator compares against.
\<close>

datatype curve_type =
  CURVE_LINEAR | CURVE_SMOOTHSTEP | CURVE_CATMULL | CURVE_CARDINAL | CURVE_STEP
  | CURVE_CARDINAL_STABLE

text \<open>A key is the two-element array \<open>[time, value]\<close>.\<close>

type_synonym key = "number \<times> number"

record Curve =
  keys :: "key list"
  type :: curve_type
  tension :: number

text \<open>
  The field \<open>time_\<close> of the source is written \<open>time'\<close>. The iterator holds a reference
  to the curve, which it never writes; a change the owner makes to the curve between two
  calls is an update of the field \<open>curve\<close>.
\<close>

record CurveIterator =
  curve :: Curve
  time' :: number
  left :: number
  right :: number
  recip :: number
  p0 :: number
  p1 :: number
  m0 :: number
  m1 :: number

text \<open>
  Modelled from the spec: \<open>pc.math.lerp\<close> is defined outside the files at hand; the spec
  calls it the linear interpolation of \<open>p0\<close>, \<open>p1\<close> by \<open>t\<close>.
\<close>

definition lerp :: "number \<Rightarrow> number \<Rightarrow> number \<Rightarrow> number" where
  "lerp a b alpha = js_add a (js_mul (js_sub b a) alpha)"

text \<open>
  \<open>keys[i][0]\<close> and \<open>keys[i][1]\<close>: reading past the end of the array gives
  \<open>undefined\<close>, and indexing \<open>undefined\<close> throws a TypeError.
\<close>

definition key_at :: "key list \<Rightarrow> nat \<Rightarrow> error + key" where
  "key_at ks i = (if i < length ks then Inr (ks ! i) else Inl TypeError)"

definition isHermite :: "CurveIterator \<Rightarrow> bool" where
  "isHermite s = (type (curve s) \<in> {CURVE_CATMULL, CURVE_CARDINAL, CURVE_CARDINAL_STABLE})"

text \<open>
  \<open>_calcTangents(keys, index)\<close>. The test \<open>index == keys.length - 2\<close> is on integers, so it
  is written \<open>index + 2 = length ks\<close>.
\<close>

definition calcTangents :: "key list \<Rightarrow> nat \<Rightarrow> CurveIterator \<Rightarrow> error + CurveIterator" where
  "calcTangents ks index s =
    (case key_at ks index of Inl e \<Rightarrow> Inl e | Inr b \<Rightarrow>
     case key_at ks (index + 1) of Inl e \<Rightarrow> Inl e | Inr c \<Rightarrow>
     case (if index = 0 then
             (case key_at ks 0 of Inl e \<Rightarrow> Inl e | Inr k0 \<Rightarrow>
              case key_at ks 1 of Inl e \<Rightarrow> Inl e | Inr k1 \<Rightarrow>
                Inr (js_add (fst k0) (js_sub (fst k0) (fst k1)),
                     js_add (snd k0) (js_sub (snd k0) (snd k1))))
           else key_at ks (index - 1)) of Inl e \<Rightarrow> Inl e | Inr a \<Rightarrow>
     case (if index + 2 = length ks then
             Inr (js_add (fst c) (js_sub (fst c) (fst b)),
                  js_add (snd c) (js_sub (snd c) (snd b)))
           else key_at ks (index + 2)) of Inl e \<Rightarrow> Inl e | Inr d \<Rightarrow>
     if type (curve s) = CURVE_CARDINAL_STABLE then
       (let s1' = js_div (js_mul (Fin 2) (js_sub (fst c) (fst b))) (js_sub (fst c) (fst a));
            s2' = js_div (js_mul (Fin 2) (js_sub (fst c) (fst b))) (js_sub (fst d) (fst b))
        in Inr (s\<lparr>m0 := js_mul (js_mul (tension (curve s)) (if isFinite s1' then s1' else Fin 0))
                              (js_sub (snd c) (snd a)),
                   m1 := js_mul (js_mul (tension (curve s)) (if isFinite s2' then s2' else Fin 0))
                              (js_sub (snd d) (snd b))\<rparr>))
     else
       (let s1 = js_div (js_sub (fst c) (fst b)) (js_sub (fst b) (fst a));
            s2 = js_div (js_sub (fst c) (fst b)) (js_sub (fst d) (fst c));
            a' = js_add (snd b) (js_mul (js_sub (snd a) (snd b)) (if isFinite s1 then s1 else Fin 0));
            d' = js_add (snd c) (js_mul (js_sub (snd d) (snd c)) (if isFinite s2 then s2 else Fin 0));
            tension' = (if type (curve s) = CURVE_CATMULL then Fin (1 / 2) else tension (curve s))
        in Inr (s\<lparr>m0 := js_mul tension' (js_sub (snd c) a'),
                   m1 := js_mul tension' (js_sub d' (snd b))\<rparr>)))"

text \<open>
  The linear search of \<open>reset\<close>: \<open>while (this.time_ >= keys[index + 1][0]) index++\<close>.
  It stops with a TypeError when \<open>index + 1\<close> runs past the end of the array.
\<close>

function reset_scan :: "key list \<Rightarrow> number \<Rightarrow> nat \<Rightarrow> error + nat" where
  "reset_scan ks t index =
     (if index + 1 < length ks then
        (if js_ge t (fst (ks ! (index + 1))) then reset_scan ks t (index + 1) else Inr index)
      else Inl TypeError)"
  by pat_completeness auto
termination
  by (relation "measure (\<lambda>(ks, t, index). length ks - index)") auto

declare reset_scan.simps [simp del]

text \<open>
  \<open>reset(time)\<close>. In the branches taken when \<open>len\<close> is not zero, \<open>keys[0]\<close> and
  \<open>keys[len - 1]\<close> are inside the array.
\<close>

definition reset :: "number \<Rightarrow> CurveIterator \<Rightarrow> error + CurveIterator" where
  "reset time s =
    (let ks = keys (curve s);
         len = length ks;
         s = s\<lparr>time' := time\<rparr>
     in if len = 0 then
          Inr (s\<lparr>left := NegInf, right := PosInf, recip := Fin 0,
                 p0 := Fin 0, p1 := Fin 0, m0 := Fin 0, m1 := Fin 0\<rparr>)
        else if js_lt (time' s) (fst (ks ! 0)) then
          Inr (s\<lparr>left := NegInf, right := fst (ks ! 0), recip := Fin 0,
                 p0 := snd (ks ! 0), p1 := snd (ks ! 0), m0 := Fin 0, m1 := Fin 0\<rparr>)
        else if js_ge (time' s) (fst (ks ! (len - 1))) then
          Inr (s\<lparr>left := fst (ks ! (len - 1)), right := PosInf, recip := Fin 0,
                 p0 := snd (ks ! (len - 1)), p1 := snd (ks ! (len - 1)),
                 m0 := Fin 0, m1 := Fin 0\<rparr>)
        else
          (case reset_scan ks (time' s) 0 of Inl e \<Rightarrow> Inl e | Inr index \<Rightarrow>
             (let s = s\<lparr>left := fst (ks ! index), right := fst (ks ! (index + 1))\<rparr>;
                  diff = js_div (Fin 1) (js_sub (right s) (left s));
                  s = s\<lparr>recip := (if isFinite diff then diff else Fin 0),
                         p0 := snd (ks ! index), p1 := snd (ks ! (index + 1))\<rparr>
              in if isHermite s then calcTangents ks index s else Inr s)))"

text \<open>
  The constructor: \<open>time || 0\<close> is \<open>0\<close> when the argument is missing, zero or NaN.
\<close>

definition new_CurveIterator :: "Curve \<Rightarrow> number option \<Rightarrow> error + CurveIterator" where
  "new_CurveIterator c time =
    (let t0 = (case time of None \<Rightarrow> Fin 0
                          | Some t \<Rightarrow> if t = NaN \<or> t = Fin 0 then Fin 0 else t)
     in reset t0 \<lparr>curve = c, time' = t0, left = NegInf, right = PosInf, recip = Fin 0,
                  p0 = Fin 0, p1 = Fin 0, m0 = Fin 0, m1 = Fin 0\<rparr>)"

text \<open>\<open>_evaluateHermite(p0, p1, m0, m1, t)\<close>, as the prototype defines it.\<close>

definition evaluateHermite :: "number \<Rightarrow> number \<Rightarrow> number \<Rightarrow> number \<Rightarrow> number \<Rightarrow> number" where
  "evaluateHermite P0 P1 M0 M1 t =
    (let t2 = js_mul t t;
         twot = js_add t t;
         omt = js_sub (Fin 1) t;
         omt2 = js_mul omt omt
     in js_add (js_add (js_add (js_mul P0 (js_mul (js_add (Fin 1) twot) omt2))
                               (js_mul M0 (js_mul t omt2)))
                       (js_mul P1 (js_mul t2 (js_sub (Fin 3) twot))))
               (js_mul M1 (js_mul t2 (js_sub t (Fin 1)))))"

text \<open>
  \<open>evaluate()\<close>. The last branch calls \<open>this._evaluateHermite2\<close>; the prototype defines
  \<open>_evaluateHermite\<close> and no \<open>_evaluateHermite2\<close>, so the callee is \<open>undefined\<close> and the call
  throws a TypeError.
\<close>

definition evaluate :: "CurveIterator \<Rightarrow> error + number" where
  "evaluate s =
    (if type (curve s) = CURVE_STEP then Inr (p0 s)
     else
       (let t = (if js_seq (recip s) (Fin 0) then Fin 0
                 else js_mul (js_sub (time' s) (left s)) (recip s))
        in if type (curve s) = CURVE_LINEAR then Inr (lerp (p0 s) (p1 s) t)
           else if type (curve s) = CURVE_SMOOTHSTEP then
             Inr (lerp (p0 s) (p1 s)
                    (js_mul (js_mul t t) (js_sub (Fin 3) (js_mul (Fin 2) t))))
           else Inl TypeError))"

text \<open>\<open>advance(amount)\<close>.\<close>

definition advance :: "number \<Rightarrow> CurveIterator \<Rightarrow> error + CurveIterator" where
  "advance amount s =
    (let s = s\<lparr>time' := js_add (time' s) amount\<rparr>
     in if js_ge amount (Fin 0) then
          (if js_gt (time' s) (right s) then reset (time' s) s else Inr s)
        else if js_lt (time' s) (left s) then reset (time' s) s
        else Inr s)"

text \<open>
  \<open>value(time)\<close>, named \<open>value_at\<close> here: the value returned and the iterator
  afterwards.
\<close>

definition value_at :: "number \<Rightarrow> CurveIterator \<Rightarrow> error + (number \<times> CurveIterator)" where
  "value_at time s =
    (case (if js_lt time (left s) \<or> js_ge time (right s) then reset time s
           else Inr (s\<lparr>time' := time\<rparr>)) of
       Inl e \<Rightarrow> Inl e
     | Inr s' \<Rightarrow> (case evaluate s' of Inl e \<Rightarrow> Inl e | Inr v \<Rightarrow> Inr (v, s')))"

section \<open>Notions the claims are stated with\<close>

text \<open>
  The words of the specification for the tangents of a CardinalStable curve: a scale that is
  not finite counts as \<open>0\<close>; a missing neighbour is extrapolated linearly, time and value,
  from the two keys at that end of the curve.
\<close>

definition guard_finite :: "number \<Rightarrow> number" where
  "guard_finite x = (if isFinite x then x else Fin 0)"

definition extrapolate :: "key \<Rightarrow> key \<Rightarrow> key" where
  "extrapolate k k' =
     (js_add (fst k) (js_sub (fst k) (fst k')), js_add (snd k) (js_sub (snd k) (snd k')))"

definition left_neighbour :: "key list \<Rightarrow> nat \<Rightarrow> key" where
  "left_neighbour ks i = (if i = 0 then extrapolate (ks ! 0) (ks ! 1) else ks ! (i - 1))"

definition right_neighbour :: "key list \<Rightarrow> nat \<Rightarrow> key" where
  "right_neighbour ks i =
     (if i + 2 = length ks then extrapolate (ks ! (length ks - 1)) (ks ! (length ks - 2))
      else ks ! (i + 2))"


text \<open>
  The tangents as the constructor leaves them for a curve that is not of a Hermite kind:
  both \<open>0\<close>. \<open>reset\<close> keeps them so; it does not put them back to \<open>0\<close> when the
  curve has been given another kind in between.
\<close>

definition tangents_cleared :: "CurveIterator \<Rightarrow> bool" where
  "tangents_cleared s = (\<not> isHermite s \<longrightarrow> m0 s = Fin 0 \<and> m1 s = Fin 0)"

text \<open>
  The claim about \<open>advance\<close> and \<open>value\<close> compares two runs from the same start:
  \<open>advance\<close> with each amount, \<open>evaluate()\<close> after each; and \<open>value\<close> at each of the
  cumulative times.
\<close>

fun advance_evaluate_all :: "number list \<Rightarrow> CurveIterator \<Rightarrow> error + number list" where
  "advance_evaluate_all [] s = Inr []"
| "advance_evaluate_all (amount # amounts) s =
     (case advance amount s of Inl e \<Rightarrow> Inl e | Inr s' \<Rightarrow>
      case evaluate s' of Inl e \<Rightarrow> Inl e | Inr v \<Rightarrow>
      case advance_evaluate_all amounts s' of Inl e \<Rightarrow> Inl e | Inr vs \<Rightarrow> Inr (v # vs))"

fun cumulative :: "number \<Rightarrow> number list \<Rightarrow> number list" where
  "cumulative t [] = []"
| "cumulative t (amount # amounts) = js_add t amount # cumulative (js_add t amount) amounts"

fun value_all :: "number list \<Rightarrow> CurveIterator \<Rightarrow> error + number list" where
  "value_all [] s = Inr []"
| "value_all (t # ts) s =
     (case value_at t s of Inl e \<Rightarrow> Inl e | Inr (v, s') \<Rightarrow>
      case value_all ts s' of Inl e \<Rightarrow> Inl e | Inr vs \<Rightarrow> Inr (v # vs))"

section \<open>Example curves\<close>

definition example_keys :: "key list" where
  "example_keys = [(Fin 0, Fin 0), (Fin 1, Fin 1), (Fin 3, Fin 2)]"

definition example_curve :: "curve_type \<Rightarrow> Curve" where
  "example_curve ty = \<lparr>keys = example_keys, type = ty, tension = Fin (1 / 2)\<rparr>"

definition empty_curve :: "curve_type \<Rightarrow> Curve" where
  "empty_curve ty = \<lparr>keys = [], type = ty, tension = Fin (1 / 2)\<rparr>"

definition single_key_curve :: "curve_type \<Rightarrow> Curve" where
  "single_key_curve ty = \<lparr>keys = [(Fin 0, Fin 5)], type = ty, tension = Fin (1 / 2)\<rparr>"

text \<open>
  A state over the example curve: time \<open>0\<close>, the first span cached, the tangents \<open>0\<close>. It
  is the state the constructor leaves for a curve that is not of a Hermite kind.
\<close>

definition example_state :: "curve_type \<Rightarrow> CurveIterator" where
  "example_state ty =
     \<lparr>curve = example_curve ty, time' = Fin 0, left = Fin 0, right = Fin 1, recip = Fin 1,
      p0 = Fin 0, p1 = Fin 1, m0 = Fin 0, m1 = Fin 0\<rparr>"

text \<open>
  Notions for comparing \<open>advance\<close> with \<open>value\<close>. The time lies in the closed cached
  span; the cache is what \<open>reset\<close> computes at every time of the half-open cached span;
  a run of \<open>advance\<close> calls makes a forward step that lands exactly on the cached \<open>right\<close>.
\<close>

definition in_span :: "CurveIterator \<Rightarrow> bool" where
  "in_span s = (isFinite (time' s) \<and> js_ge (time' s) (left s) \<and> js_ge (right s) (time' s))"

definition cache_valid :: "CurveIterator \<Rightarrow> bool" where
  "cache_valid s =
     (tangents_cleared s
      \<and> (\<forall>t. js_ge t (left s) \<and> js_lt t (right s) \<longrightarrow> reset t s = Inr (s\<lparr>time' := t\<rparr>)))"

fun lands_on_right :: "number list \<Rightarrow> CurveIterator \<Rightarrow> bool" where
  "lands_on_right [] s = False"
| "lands_on_right (amount # amounts) s =
     ((js_ge amount (Fin 0) \<and> js_seq (js_add (time' s) amount) (right s))
      \<or> (case advance amount s of Inl e \<Rightarrow> False | Inr s' \<Rightarrow> lands_on_right amounts s'))"

section \<open>Facts about the comparisons and the linear search\<close>

lemma js_ge_iff: "a \<noteq> NaN \<Longrightarrow> b \<noteq> NaN \<Longrightarrow> js_ge a b = (\<not> js_lt a b)"
  by (simp add: js_ge_def)

lemma js_lt_not_NaN: "js_lt a b \<Longrightarrow> a \<noteq> NaN \<and> b \<noteq> NaN"
  by (cases a; cases b) auto

lemma js_lt_trans: "js_lt a b \<Longrightarrow> js_lt b c \<Longrightarrow> js_lt a c"
  by (cases a; cases b; cases c) auto

lemma js_lt_irrefl: "\<not> js_lt a a"
  by (cases a) auto

lemma js_ge_lt_trans: "js_ge b a \<Longrightarrow> js_lt b c \<Longrightarrow> js_lt a c"
  by (cases a; cases b; cases c) (auto simp: js_ge_def)

lemma js_lt_ge_trans: "js_lt a b \<Longrightarrow> js_ge c b \<Longrightarrow> js_lt a c"
  by (cases a; cases b; cases c) (auto simp: js_ge_def)

lemma js_ge_trans: "js_ge a b \<Longrightarrow> js_ge b c \<Longrightarrow> js_ge a c"
  by (cases a; cases b; cases c) (auto simp: js_ge_def)

lemma js_lt_imp_ge: "js_lt a b \<Longrightarrow> js_ge b a"
  by (cases a; cases b) (auto simp: js_ge_def)

lemma js_ge_refl: "a \<noteq> NaN \<Longrightarrow> js_ge a a"
  by (cases a) (auto simp: js_ge_def)

lemma js_ge_not_lt: "js_ge a b \<Longrightarrow> \<not> js_lt a b"
  by (simp add: js_ge_def)

lemma reset_scan_bound: "reset_scan ks t i = Inr j \<Longrightarrow> i \<le> j \<and> j + 1 < length ks"
proof (induction ks t i rule: reset_scan.induct)
  case (1 ks t index)
  show ?case
  proof (cases "index + 1 < length ks")
    case True
    note lt = this
    show ?thesis
    proof (cases "js_ge t (fst (ks ! (index + 1)))")
      case True
      with lt "1.prems" have "reset_scan ks t (index + 1) = Inr j"
        by (simp add: reset_scan.simps [of ks t index])
      with "1.IH" [OF lt True] show ?thesis by simp
    next
      case False
      with lt "1.prems" show ?thesis
        by (simp add: reset_scan.simps [of ks t index])
    qed
  next
    case False
    with "1.prems" show ?thesis
      by (simp add: reset_scan.simps [of ks t index])
  qed
qed

lemma reset_scan_result:
  "i + 1 < length ks \<Longrightarrow> \<not> js_ge t (fst (ks ! (length ks - 1))) \<Longrightarrow>
   \<exists>j. reset_scan ks t i = Inr j \<and> i \<le> j \<and> j + 1 < length ks
      \<and> \<not> js_ge t (fst (ks ! (j + 1)))
      \<and> (\<forall>m. i < m \<and> m \<le> j \<longrightarrow> js_ge t (fst (ks ! m)))"
proof (induction ks t i rule: reset_scan.induct)
  case (1 ks t index)
  note lt = "1.prems"(1) and last = "1.prems"(2)
  show ?case
  proof (cases "js_ge t (fst (ks ! (index + 1)))")
    case True
    with last have "index + 1 \<noteq> length ks - 1" by auto
    with lt have lt': "index + 1 + 1 < length ks" by simp
    from "1.IH" [OF lt True lt' last] obtain j where
      j: "reset_scan ks t (index + 1) = Inr j" "index + 1 \<le> j" "j + 1 < length ks"
         "\<not> js_ge t (fst (ks ! (j + 1)))"
         "\<forall>m. index + 1 < m \<and> m \<le> j \<longrightarrow> js_ge t (fst (ks ! m))"
      by blast
    have "reset_scan ks t index = Inr j"
      using lt True j(1) by (simp add: reset_scan.simps [of ks t index])
    moreover have "\<forall>m. index < m \<and> m \<le> j \<longrightarrow> js_ge t (fst (ks ! m))"
    proof (intro allI impI)
      fix m assume m: "index < m \<and> m \<le> j"
      show "js_ge t (fst (ks ! m))"
      proof (cases "m = index + 1")
        case True
        with \<open>js_ge t (fst (ks ! (index + 1)))\<close> show ?thesis by simp
      next
        case False
        with m have "index + 1 < m \<and> m \<le> j" by simp
        with j(5) show ?thesis by blast
      qed
    qed
    ultimately show ?thesis using j(2,3,4) by auto
  next
    case False
    with lt have "reset_scan ks t index = Inr index"
      by (simp add: reset_scan.simps [of ks t index])
    with lt False show ?thesis by auto
  qed
qed

lemma calcTangents_shape:
  assumes "calcTangents ks index s = Inr s'"
  shows "\<exists>x y. s' = s\<lparr>m0 := x, m1 := y\<rparr>"
proof -
  obtain b where b: "key_at ks index = Inr b"
    using assms by (cases "key_at ks index") (simp_all add: calcTangents_def)
  obtain c where c: "key_at ks (index + 1) = Inr c"
    using assms b by (cases "key_at ks (index + 1)") (simp_all add: calcTangents_def)
  let ?A = "(if index = 0 then
             (case key_at ks 0 of Inl e \<Rightarrow> Inl e | Inr k0 \<Rightarrow>
              case key_at ks 1 of Inl e \<Rightarrow> Inl e | Inr k1 \<Rightarrow>
                Inr (js_add (fst k0) (js_sub (fst k0) (fst k1)),
                     js_add (snd k0) (js_sub (snd k0) (snd k1))))
           else key_at ks (index - 1))"
  obtain a where a: "?A = Inr a"
    using assms unfolding calcTangents_def b c sum.case by (cases ?A) simp_all
  let ?D = "(if index + 2 = length ks then
             Inr (js_add (fst c) (js_sub (fst c) (fst b)),
                  js_add (snd c) (js_sub (snd c) (snd b)))
           else key_at ks (index + 2))"
  obtain d where d: "?D = Inr d"
    using assms unfolding calcTangents_def b c a sum.case by (cases ?D) simp_all
  from assms show ?thesis
    unfolding calcTangents_def b c a d sum.case Let_def
    by (cases "type (curve s) = CURVE_CARDINAL_STABLE") auto
qed

lemma calcTangents_frame:
  assumes "calcTangents ks index s = Inr s'"
  shows "curve s' = curve s \<and> time' s' = time' s \<and> left s' = left s \<and> right s' = right s
       \<and> recip s' = recip s \<and> p0 s' = p0 s \<and> p1 s' = p1 s"
proof -
  from calcTangents_shape [OF assms] obtain x y where "s' = s\<lparr>m0 := x, m1 := y\<rparr>"
    by blast
  then show ?thesis by simp
qed


lemma reset_empty:
  "keys (curve s) = [] \<Longrightarrow>
   reset t s = Inr (s\<lparr>time' := t, left := NegInf, right := PosInf, recip := Fin 0,
                      p0 := Fin 0, p1 := Fin 0, m0 := Fin 0, m1 := Fin 0\<rparr>)"
  by (simp add: reset_def Let_def)

lemma reset_before_first:
  "keys (curve s) \<noteq> [] \<Longrightarrow> js_lt t (fst (keys (curve s) ! 0)) \<Longrightarrow>
   reset t s = Inr (s\<lparr>time' := t, left := NegInf, right := fst (keys (curve s) ! 0),
                      recip := Fin 0, p0 := snd (keys (curve s) ! 0),
                      p1 := snd (keys (curve s) ! 0), m0 := Fin 0, m1 := Fin 0\<rparr>)"
  by (simp add: reset_def Let_def)

lemma reset_past_last:
  "keys (curve s) \<noteq> [] \<Longrightarrow> \<not> js_lt t (fst (keys (curve s) ! 0)) \<Longrightarrow>
   js_ge t (fst (keys (curve s) ! (length (keys (curve s)) - 1))) \<Longrightarrow>
   reset t s = Inr (s\<lparr>time' := t,
                      left := fst (keys (curve s) ! (length (keys (curve s)) - 1)),
                      right := PosInf, recip := Fin 0,
                      p0 := snd (keys (curve s) ! (length (keys (curve s)) - 1)),
                      p1 := snd (keys (curve s) ! (length (keys (curve s)) - 1)),
                      m0 := Fin 0, m1 := Fin 0\<rparr>)"
  by (simp add: reset_def Let_def)

lemma calcTangents_total:
  "index + 1 < length ks \<Longrightarrow> \<exists>s'. calcTangents ks index s = Inr s'"
  by (auto simp: calcTangents_def key_at_def Let_def)

text \<open>The branch of \<open>reset\<close> that searches: what it returns once the search has stopped.\<close>


text \<open>The branch of \<open>reset\<close> that searches, written out.\<close>

lemma reset_inside_eq:
  assumes "keys (curve s) \<noteq> []"
    and "\<not> js_lt t (fst (keys (curve s) ! 0))"
    and "\<not> js_ge t (fst (keys (curve s) ! (length (keys (curve s)) - 1)))"
    and "reset_scan (keys (curve s)) t 0 = Inr index"
  shows "reset t s =
    (if isHermite s then
       calcTangents (keys (curve s)) index
         (s\<lparr>time' := t, left := fst (keys (curve s) ! index),
            right := fst (keys (curve s) ! (index + 1)),
            recip := (if isFinite (js_div (Fin 1) (js_sub (fst (keys (curve s) ! (index + 1)))
                                                           (fst (keys (curve s) ! index))))
                      then js_div (Fin 1) (js_sub (fst (keys (curve s) ! (index + 1)))
                                                  (fst (keys (curve s) ! index)))
                      else Fin 0),
            p0 := snd (keys (curve s) ! index), p1 := snd (keys (curve s) ! (index + 1))\<rparr>)
     else
       Inr (s\<lparr>time' := t, left := fst (keys (curve s) ! index),
            right := fst (keys (curve s) ! (index + 1)),
            recip := (if isFinite (js_div (Fin 1) (js_sub (fst (keys (curve s) ! (index + 1)))
                                                           (fst (keys (curve s) ! index))))
                      then js_div (Fin 1) (js_sub (fst (keys (curve s) ! (index + 1)))
                                                  (fst (keys (curve s) ! index)))
                      else Fin 0),
            p0 := snd (keys (curve s) ! index), p1 := snd (keys (curve s) ! (index + 1))\<rparr>))"
  using assms by (simp add: reset_def Let_def isHermite_def)

lemma reset_inside_error:
  assumes "keys (curve s) \<noteq> []"
    and "\<not> js_lt t (fst (keys (curve s) ! 0))"
    and "\<not> js_ge t (fst (keys (curve s) ! (length (keys (curve s)) - 1)))"
    and "reset_scan (keys (curve s)) t 0 = Inl e"
  shows "reset t s = Inl e"
  using assms by (simp add: reset_def Let_def)


lemma reset_inside:
  assumes "keys (curve s) \<noteq> []"
    and "\<not> js_lt t (fst (keys (curve s) ! 0))"
    and "\<not> js_ge t (fst (keys (curve s) ! (length (keys (curve s)) - 1)))"
    and "reset_scan (keys (curve s)) t 0 = Inr index"
  shows "\<exists>s'. reset t s = Inr s' \<and> curve s' = curve s \<and> time' s' = t
           \<and> left s' = fst (keys (curve s) ! index)
           \<and> right s' = fst (keys (curve s) ! (index + 1))
           \<and> p0 s' = snd (keys (curve s) ! index)
           \<and> p1 s' = snd (keys (curve s) ! (index + 1))"
proof -
  let ?ks = "keys (curve s)"
  from assms(4) have b: "index + 1 < length ?ks"
    using reset_scan_bound by blast
  let ?s1 = "s\<lparr>time' := t, left := fst (?ks ! index), right := fst (?ks ! (index + 1)),
               recip := (if isFinite (js_div (Fin 1) (js_sub (fst (?ks ! (index + 1))) (fst (?ks ! index))))
                         then js_div (Fin 1) (js_sub (fst (?ks ! (index + 1))) (fst (?ks ! index)))
                         else Fin 0),
               p0 := snd (?ks ! index), p1 := snd (?ks ! (index + 1))\<rparr>"
  have r: "reset t s = (if isHermite s then calcTangents ?ks index ?s1 else Inr ?s1)"
    by (rule reset_inside_eq [OF assms])
  show ?thesis
  proof (cases "isHermite s")
    case True
    from calcTangents_total [OF b] obtain s' where s': "calcTangents ?ks index ?s1 = Inr s'"
      by blast
    from calcTangents_frame [OF s'] r True s' show ?thesis by simp
  next
    case False
    with r show ?thesis by simp
  qed
qed

lemma reset_time:
  assumes "reset t s = Inr s'"
  shows "time' s' = t \<and> curve s' = curve s"
proof (cases "keys (curve s) = []")
  case True
  with assms show ?thesis by (auto simp: reset_empty)
next
  case False
  note ne = this
  show ?thesis
  proof (cases "js_lt t (fst (keys (curve s) ! 0))")
    case True
    with ne assms show ?thesis by (auto simp: reset_before_first)
  next
    case False
    note nlt = this
    show ?thesis
    proof (cases "js_ge t (fst (keys (curve s) ! (length (keys (curve s)) - 1)))")
      case True
      with ne nlt assms show ?thesis by (auto simp: reset_past_last)
    next
      case False
      note nge = this
      show ?thesis
      proof (cases "reset_scan (keys (curve s)) t 0")
        case (Inl e)
        from reset_inside_error [OF ne nlt nge Inl] assms show ?thesis by simp
      next
        case (Inr index)
        from reset_inside [OF ne nlt nge Inr] assms show ?thesis by auto
      qed
    qed
  qed
qed


lemma not_ge_lt: "a \<noteq> NaN \<Longrightarrow> b \<noteq> NaN \<Longrightarrow> \<not> js_ge a b \<Longrightarrow> js_lt a b"
  by (simp add: js_ge_def)

lemma not_lt_ge: "a \<noteq> NaN \<Longrightarrow> b \<noteq> NaN \<Longrightarrow> \<not> js_lt a b \<Longrightarrow> js_ge a b"
  by (simp add: js_ge_def)

text \<open>
  Where the search stops: between two neighbouring keys that enclose the time. Only the
  last key has to lie after the time; the order of the other keys does not matter.
\<close>

lemma reset_scan_span:
  assumes "ks \<noteq> []"
    and "js_ge t (fst (ks ! 0))"
    and "js_lt t (fst (ks ! (length ks - 1)))"
    and "\<forall>k\<in>set ks. fst k \<noteq> NaN"
  shows "\<exists>j. reset_scan ks t 0 = Inr j \<and> j + 1 < length ks
            \<and> js_ge t (fst (ks ! j)) \<and> js_lt t (fst (ks ! (j + 1)))"
proof -
  from assms(3) have nge: "\<not> js_ge t (fst (ks ! (length ks - 1)))"
    by (simp add: js_ge_def)
  have "length ks \<noteq> 1"
  proof
    assume "length ks = 1"
    with assms(2) assms(3) show False by (simp add: js_ge_def)
  qed
  with assms(1) have "0 + 1 < length ks" by (cases ks) auto
  from reset_scan_result [OF this nge] obtain j where
    j: "reset_scan ks t 0 = Inr j" "j + 1 < length ks"
       "\<not> js_ge t (fst (ks ! (j + 1)))"
       "\<forall>m. 0 < m \<and> m \<le> j \<longrightarrow> js_ge t (fst (ks ! m))"
    by blast
  have tn: "t \<noteq> NaN" using assms(2) by (simp add: js_ge_def)
  have "fst (ks ! (j + 1)) \<noteq> NaN" using assms(4) j(2) by simp
  with tn j(3) have up: "js_lt t (fst (ks ! (j + 1)))" by (simp add: js_ge_def)
  have "js_ge t (fst (ks ! j))"
  proof (cases "j = 0")
    case True
    with assms(2) show ?thesis by simp
  next
    case False
    with j(4) show ?thesis by simp
  qed
  with j(1,2) up show ?thesis by blast
qed


text \<open>
  After \<open>reset\<close> at a finite time the time lies in the cached span, whatever the order of
  the keys, as long as no key time is NaN.
\<close>

lemma reset_span:
  assumes "\<forall>k\<in>set (keys (curve s)). fst k \<noteq> NaN"
  shows "\<exists>s'. reset (Fin x) s = Inr s' \<and> time' s' = Fin x
           \<and> js_ge (time' s') (left s') \<and> js_lt (time' s') (right s')
           \<and> (keys (curve s) = [] \<longrightarrow> left s' = NegInf \<and> right s' = PosInf)
           \<and> (keys (curve s) \<noteq> [] \<and> js_lt (Fin x) (fst (keys (curve s) ! 0)) \<longrightarrow>
                 left s' = NegInf \<and> right s' = fst (keys (curve s) ! 0))
           \<and> (keys (curve s) \<noteq> [] \<and> \<not> js_lt (Fin x) (fst (keys (curve s) ! 0))
                \<and> js_ge (Fin x) (fst (keys (curve s) ! (length (keys (curve s)) - 1))) \<longrightarrow>
                 left s' = fst (keys (curve s) ! (length (keys (curve s)) - 1))
                 \<and> right s' = PosInf)"
proof -
  let ?ks = "keys (curve s)"
  let ?t = "Fin x"
  show ?thesis
  proof (cases "?ks = []")
    case True
    then show ?thesis by (simp add: reset_empty js_ge_def)
  next
    case False
    note ne = this
    then have first: "fst (?ks ! 0) \<noteq> NaN" and last: "fst (?ks ! (length ?ks - 1)) \<noteq> NaN"
      using assms by simp_all
    show ?thesis
    proof (cases "js_lt ?t (fst (?ks ! 0))")
      case True
      with ne show ?thesis by (simp add: reset_before_first js_ge_def)
    next
      case False
      note nlt = this
      show ?thesis
      proof (cases "js_ge ?t (fst (?ks ! (length ?ks - 1)))")
        case True
        with ne nlt show ?thesis by (simp add: reset_past_last)
      next
        case False
        note nge = this
        from nlt first have ge0: "js_ge ?t (fst (?ks ! 0))" by (simp add: js_ge_def)
        from nge last have ltl: "js_lt ?t (fst (?ks ! (length ?ks - 1)))"
          by (simp add: js_ge_def)
        from reset_scan_span [OF ne ge0 ltl assms] obtain j where
          j: "reset_scan ?ks ?t 0 = Inr j" "j + 1 < length ?ks"
             "js_ge ?t (fst (?ks ! j))" "js_lt ?t (fst (?ks ! (j + 1)))"
          by blast
        from reset_inside [OF ne nlt nge j(1)] obtain s' where
          s': "reset ?t s = Inr s'" "time' s' = ?t" "left s' = fst (?ks ! j)"
              "right s' = fst (?ks ! (j + 1))"
          by blast
        with j(3,4) ne nlt nge show ?thesis by simp
      qed
    qed
  qed
qed



text \<open>The two tests of \<open>advance\<close> as one condition.\<close>

lemma advance_eq:
  "advance amount s =
     (if (js_ge amount (Fin 0) \<and> js_gt (js_add (time' s) amount) (right s))
         \<or> (js_lt amount (Fin 0) \<and> js_lt (js_add (time' s) amount) (left s))
      then reset (js_add (time' s) amount) (s\<lparr>time' := js_add (time' s) amount\<rparr>)
      else Inr (s\<lparr>time' := js_add (time' s) amount\<rparr>))"
proof -
  have nan: "\<not> js_ge amount (Fin 0) \<Longrightarrow> \<not> js_lt amount (Fin 0) \<Longrightarrow>
             \<not> js_lt (js_add (time' s) amount) (left s)"
    by (cases amount; cases "time' s") (auto simp: js_ge_def)
  then show ?thesis by (auto simp: advance_def Let_def js_ge_def)
qed

lemma sorted_times_lt:
  "sorted_wrt (\<lambda>a b. js_lt (fst a) (fst b)) ks \<Longrightarrow> i < j \<Longrightarrow> j < length ks \<Longrightarrow>
   js_lt (fst (ks ! i)) (fst (ks ! j))"
  using sorted_wrt_nth_less [of "\<lambda>a b. js_lt (fst a) (fst b)" ks i j] by simp

lemma sorted_times_ge:
  assumes "sorted_wrt (\<lambda>a b. js_lt (fst a) (fst b)) ks" "i \<le> j" "j < length ks"
    "fst (ks ! j) \<noteq> NaN"
  shows "js_ge (fst (ks ! j)) (fst (ks ! i))"
proof (cases "i = j")
  case True
  with assms(4) show ?thesis by (simp add: js_ge_refl)
next
  case False
  with assms(2) have "i < j" by simp
  from sorted_times_lt [OF assms(1) this assms(3)] show ?thesis by (rule js_lt_imp_ge)
qed

text \<open>With increasing key times, a key at or before the time is at or before the span.\<close>

lemma key_before_span:
  assumes "sorted_wrt (\<lambda>a b. js_lt (fst a) (fst b)) ks"
    and "j + 1 < length ks" "js_lt t (fst (ks ! (j + 1)))"
    and "i < length ks" "js_ge t (fst (ks ! i))"
  shows "i \<le> j"
proof (rule ccontr)
  assume "\<not> i \<le> j"
  then have "j + 1 \<le> i" by simp
  have "fst (ks ! i) \<noteq> NaN" using assms(5) by (simp add: js_ge_def)
  from sorted_times_ge [OF assms(1) \<open>j + 1 \<le> i\<close> assms(4) this]
  have "js_ge (fst (ks ! i)) (fst (ks ! (j + 1)))" .
  with assms(5) have "js_ge t (fst (ks ! (j + 1)))" by (rule js_ge_trans)
  with assms(3) show False by (simp add: js_ge_def)
qed

lemma evaluate_step: "type (curve s) = CURVE_STEP \<Longrightarrow> evaluate s = Inr (p0 s)"
  by (simp add: evaluate_def)


lemma calcTangents_stable:
  assumes "type (curve s) = CURVE_CARDINAL_STABLE" "index + 1 < length ks"
  shows "\<exists>s'. calcTangents ks index s = Inr s'
     \<and> m0 s' = js_mul (js_mul (tension (curve s))
                  (guard_finite (js_div (js_mul (Fin 2) (js_sub (fst (ks ! (index + 1))) (fst (ks ! index))))
                                        (js_sub (fst (ks ! (index + 1))) (fst (left_neighbour ks index))))))
                (js_sub (snd (ks ! (index + 1))) (snd (left_neighbour ks index)))
     \<and> m1 s' = js_mul (js_mul (tension (curve s))
                  (guard_finite (js_div (js_mul (Fin 2) (js_sub (fst (ks ! (index + 1))) (fst (ks ! index))))
                                        (js_sub (fst (right_neighbour ks index)) (fst (ks ! index))))))
                (js_sub (snd (right_neighbour ks index)) (snd (ks ! index)))"
proof -
  have a: "(if index = 0 then
             (case key_at ks 0 of Inl e \<Rightarrow> Inl e | Inr k0 \<Rightarrow>
              case key_at ks 1 of Inl e \<Rightarrow> Inl e | Inr k1 \<Rightarrow>
                Inr (js_add (fst k0) (js_sub (fst k0) (fst k1)),
                     js_add (snd k0) (js_sub (snd k0) (snd k1))))
           else key_at ks (index - 1)) = Inr (left_neighbour ks index)"
    using assms(2) by (auto simp: key_at_def left_neighbour_def extrapolate_def)
  have d: "(if index + 2 = length ks then
             Inr (js_add (fst (ks ! (index + 1))) (js_sub (fst (ks ! (index + 1))) (fst (ks ! index))),
                  js_add (snd (ks ! (index + 1))) (js_sub (snd (ks ! (index + 1))) (snd (ks ! index))))
           else key_at ks (index + 2)) = Inr (right_neighbour ks index)"
  proof (cases "index + 2 = length ks")
    case True
    then have "length ks - 1 = index + 1" "length ks - 2 = index" by simp_all
    with True show ?thesis by (simp add: right_neighbour_def extrapolate_def)
  next
    case False
    with assms(2) show ?thesis by (simp add: key_at_def right_neighbour_def)
  qed
  have b: "key_at ks index = Inr (ks ! index)" "key_at ks (index + 1) = Inr (ks ! (index + 1))"
    using assms(2) by (simp_all add: key_at_def)
  show ?thesis
    unfolding calcTangents_def b sum.case a d
    using assms(1) by (simp add: Let_def guard_finite_def)
qed


lemma tangent_update_eq:
  fixes s1 s2 :: CurveIterator
  shows "curve s1 = curve s2 \<Longrightarrow> time' s1 = time' s2 \<Longrightarrow> left s1 = left s2 \<Longrightarrow>
   right s1 = right s2 \<Longrightarrow> recip s1 = recip s2 \<Longrightarrow> p0 s1 = p0 s2 \<Longrightarrow> p1 s1 = p1 s2 \<Longrightarrow>
   s1\<lparr>m0 := x, m1 := y\<rparr> = s2\<lparr>m0 := x, m1 := y\<rparr>"
  by (cases s1; cases s2) simp

lemma calcTangents_cong:
  assumes "curve s1 = curve s2" "time' s1 = time' s2" "left s1 = left s2"
    "right s1 = right s2" "recip s1 = recip s2" "p0 s1 = p0 s2" "p1 s1 = p1 s2"
  shows "calcTangents ks index s1 = calcTangents ks index s2"
  unfolding calcTangents_def Let_def assms(1) tangent_update_eq [OF assms] ..

lemma span_update_eq:
  fixes s1 s2 :: CurveIterator
  shows "curve s1 = curve s2 \<Longrightarrow> m0 s1 = m0 s2 \<Longrightarrow> m1 s1 = m1 s2 \<Longrightarrow>
   s1\<lparr>time' := a, left := b, right := c, recip := d, p0 := e, p1 := f\<rparr>
   = s2\<lparr>time' := a, left := b, right := c, recip := d, p0 := e, p1 := f\<rparr>"
  by (cases s1; cases s2) simp

lemma all_update_eq:
  fixes s1 s2 :: CurveIterator
  shows "curve s1 = curve s2 \<Longrightarrow>
   s1\<lparr>time' := a, left := b, right := c, recip := d, p0 := e, p1 := f, m0 := g, m1 := h\<rparr>
   = s2\<lparr>time' := a, left := b, right := c, recip := d, p0 := e, p1 := f, m0 := g, m1 := h\<rparr>"
  by (cases s1; cases s2) simp

text \<open>
  \<open>reset\<close> reads the curve and, for a curve that is not of a Hermite kind, leaves \<open>m0\<close>
  and \<open>m1\<close> as they were; nothing else of the old state reaches the new one.
\<close>

lemma reset_cong:
  assumes "curve s1 = curve s2"
    and "\<not> isHermite s1 \<Longrightarrow> m0 s1 = m0 s2 \<and> m1 s1 = m1 s2"
  shows "reset t s1 = reset t s2"
proof -
  let ?ks = "keys (curve s2)"
  have h: "isHermite s1 = isHermite s2" using assms(1) by (simp add: isHermite_def)
  show ?thesis
  proof (cases "?ks = []")
    case True
    with assms(1) show ?thesis by (simp add: reset_empty all_update_eq [OF assms(1)])
  next
    case False
    note ne = this
    show ?thesis
    proof (cases "js_lt t (fst (?ks ! 0))")
      case True
      with ne assms(1) show ?thesis
        by (simp add: reset_before_first all_update_eq [OF assms(1)])
    next
      case False
      note nlt = this
      show ?thesis
      proof (cases "js_ge t (fst (?ks ! (length ?ks - 1)))")
        case True
        with ne nlt assms(1) show ?thesis
          by (simp add: reset_past_last all_update_eq [OF assms(1)])
      next
        case False
        note nge = this
        show ?thesis
        proof (cases "reset_scan ?ks t 0")
          case (Inl e)
          with ne nlt nge assms(1) show ?thesis by (simp add: reset_inside_error)
        next
          case (Inr index)
          note ix = this
          show ?thesis
          proof (cases "isHermite s2")
            case True
            with ne nlt nge ix assms(1) h show ?thesis
              by (auto simp: reset_inside_eq intro!: calcTangents_cong)
          next
            case False
            with h assms(2) have m: "m0 s1 = m0 s2" "m1 s1 = m1 s2" by simp_all
            from False ne nlt nge ix assms(1) h show ?thesis
              by (simp add: reset_inside_eq span_update_eq [OF assms(1) m])
          qed
        qed
      qed
    qed
  qed
qed

lemma reset_tangents_cleared:
  assumes "reset t s = Inr s'" "tangents_cleared s"
  shows "tangents_cleared s'"
proof (cases "keys (curve s) = []")
  case True
  with assms show ?thesis by (auto simp: reset_empty tangents_cleared_def)
next
  case False
  note ne = this
  show ?thesis
  proof (cases "js_lt t (fst (keys (curve s) ! 0))")
    case True
    with ne assms show ?thesis by (auto simp: reset_before_first tangents_cleared_def)
  next
    case False
    note nlt = this
    show ?thesis
    proof (cases "js_ge t (fst (keys (curve s) ! (length (keys (curve s)) - 1)))")
      case True
      with ne nlt assms show ?thesis by (auto simp: reset_past_last tangents_cleared_def)
    next
      case False
      note nge = this
      show ?thesis
      proof (cases "reset_scan (keys (curve s)) t 0")
        case (Inl e)
        from reset_inside_error [OF ne nlt nge Inl] assms show ?thesis by simp
      next
        case (Inr index)
        show ?thesis
        proof (cases "isHermite s")
          case True
          from reset_time [OF assms(1)] have "curve s' = curve s" by simp
          with True show ?thesis by (simp add: tangents_cleared_def isHermite_def)
        next
          case False
          with reset_inside_eq [OF ne nlt nge Inr] assms show ?thesis
            by (auto simp: tangents_cleared_def isHermite_def)
        qed
      qed
    qed
  qed
qed

text \<open>The definitions a run on a concrete curve unfolds.\<close>

lemmas example_defs = example_keys_def example_curve_def empty_curve_def single_key_curve_def
  example_state_def

lemmas run_defs = new_CurveIterator_def reset_def advance_def value_at_def evaluate_def
  calcTangents_def key_at_def isHermite_def lerp_def js_sub_def js_ge_def js_gt_def js_seq_def
  Let_def reset_scan.simps

text \<open>
  \<open>evaluate()\<close> on a curve of a Hermite kind throws, whatever the state; the function
  \<open>_evaluateHermite\<close> that the prototype does define computes the cubic Hermite basis.
\<close>

lemma evaluate_hermite_throws: "isHermite s \<Longrightarrow> evaluate s = Inl TypeError"
  by (auto simp: evaluate_def isHermite_def Let_def)

lemma evaluateHermite_formula:
  "evaluateHermite (Fin P0) (Fin P1) (Fin M0) (Fin M1) (Fin t) =
     Fin (P0 * (1 + 2 * t) * (1 - t)\<^sup>2 + M0 * t * (1 - t)\<^sup>2 + P1 * t\<^sup>2 * (3 - 2 * t)
          + M1 * t\<^sup>2 * (t - 1))"
  by (simp add: evaluateHermite_def Let_def js_sub_def power2_eq_square algebra_simps)

text \<open>
  What remains of C3 and C4 for the kinds that \<open>evaluate()\<close> does handle (Step, Linear and
  Smoothstep): an empty curve evaluates to \<open>0\<close> at every time, and finite keys and a finite
  time give a finite value. The arithmetic is the exact one of this model.
\<close>

lemma zero_keys_value:
  assumes "keys (curve s) = []"
    and "type (curve s) \<in> {CURVE_STEP, CURVE_LINEAR, CURVE_SMOOTHSTEP}"
  shows "\<exists>s'. reset t s = Inr s' \<and> evaluate s' = Inr (Fin 0)"
  using assms
  by (auto simp: reset_empty evaluate_def lerp_def js_sub_def js_seq_def Let_def)

lemma isFinite_iff: "isFinite a = (\<exists>x. a = Fin x)"
  by (cases a) auto

lemma lerp_finite: "isFinite a \<Longrightarrow> isFinite b \<Longrightarrow> isFinite c \<Longrightarrow> isFinite (lerp a b c)"
  by (auto simp: isFinite_iff lerp_def js_sub_def)

lemma evaluate_finite:
  assumes "type (curve s) \<in> {CURVE_STEP, CURVE_LINEAR, CURVE_SMOOTHSTEP}"
    and "isFinite (p0 s)" "isFinite (p1 s)" "isFinite (recip s)" "isFinite (time' s)"
    and "isFinite (left s) \<or> recip s = Fin 0"
  shows "\<exists>v. evaluate s = Inr (Fin v)"
proof -
  let ?t = "if js_seq (recip s) (Fin 0) then Fin 0
            else js_mul (js_sub (time' s) (left s)) (recip s)"
  have t: "isFinite ?t"
    using assms(4,5,6) by (auto simp: isFinite_iff js_seq_def js_sub_def)
  then have t3: "isFinite (js_mul (js_mul ?t ?t) (js_sub (Fin 3) (js_mul (Fin 2) ?t)))"
    by (auto simp: isFinite_iff js_sub_def)
  from assms(1) consider "type (curve s) = CURVE_STEP" | "type (curve s) = CURVE_LINEAR"
    | "type (curve s) = CURVE_SMOOTHSTEP" by auto
  then show ?thesis
  proof cases
    case 1
    with assms(2) show ?thesis by (auto simp: evaluate_def isFinite_iff)
  next
    case 2
    from lerp_finite [OF assms(2,3) t] 2 show ?thesis
      by (simp add: evaluate_def Let_def isFinite_iff)
  next
    case 3
    from lerp_finite [OF assms(2,3) t3] 3 show ?thesis
      by (simp add: evaluate_def Let_def isFinite_iff)
  qed
qed

lemma finite_value_non_hermite:
  assumes "type (curve s) \<in> {CURVE_STEP, CURVE_LINEAR, CURVE_SMOOTHSTEP}"
    and "\<forall>k\<in>set (keys (curve s)). isFinite (fst k) \<and> isFinite (snd k)"
  shows "\<exists>s' v. reset (Fin x) s = Inr s' \<and> evaluate s' = Inr (Fin v)"
proof -
  let ?ks = "keys (curve s)"
  let ?t = "Fin x"
  have nh: "\<not> isHermite s" using assms(1) by (auto simp: isHermite_def)
  have fin: "i < length ?ks \<Longrightarrow> isFinite (fst (?ks ! i)) \<and> isFinite (snd (?ks ! i))" for i
    using assms(2) by simp
  have "\<exists>s'. reset ?t s = Inr s' \<and> curve s' = curve s \<and> isFinite (p0 s') \<and> isFinite (p1 s')
          \<and> isFinite (recip s') \<and> isFinite (time' s')
          \<and> (isFinite (left s') \<or> recip s' = Fin 0)"
  proof (cases "?ks = []")
    case True
    then show ?thesis by (simp add: reset_empty)
  next
    case False
    note ne = this
    then have l0: "0 < length ?ks" by simp
    show ?thesis
    proof (cases "js_lt ?t (fst (?ks ! 0))")
      case True
      with ne fin [OF l0] show ?thesis by (simp add: reset_before_first)
    next
      case False
      note nlt = this
      have ll: "length ?ks - 1 < length ?ks" using ne by simp
      show ?thesis
      proof (cases "js_ge ?t (fst (?ks ! (length ?ks - 1)))")
        case True
        with ne nlt fin [OF ll] show ?thesis by (simp add: reset_past_last)
      next
        case False
        note nge = this
        have nn: "\<forall>k\<in>set ?ks. fst k \<noteq> NaN" using assms(2) by (auto simp: isFinite_iff)
        from nlt fin [OF l0] have ge0: "js_ge ?t (fst (?ks ! 0))"
          by (auto simp: js_ge_def isFinite_iff)
        from nge fin [OF ll] have ltl: "js_lt ?t (fst (?ks ! (length ?ks - 1)))"
          by (auto simp: js_ge_def isFinite_iff)
        from reset_scan_span [OF ne ge0 ltl nn] obtain j where
          j: "reset_scan ?ks ?t 0 = Inr j" "j + 1 < length ?ks" by blast
        then have "j < length ?ks" by simp
        from fin [OF this] fin [OF j(2)] reset_inside_eq [OF ne nlt nge j(1)] nh
        show ?thesis by (auto simp: isFinite_iff)
      qed
    qed
  qed
  then obtain s' where s': "reset ?t s = Inr s'" "curve s' = curve s" "isFinite (p0 s')"
    "isFinite (p1 s')" "isFinite (recip s')" "isFinite (time' s')"
    "isFinite (left s') \<or> recip s' = Fin 0"
    by blast
  from assms(1) s'(2) have "type (curve s') \<in> {CURVE_STEP, CURVE_LINEAR, CURVE_SMOOTHSTEP}"
    by simp
  from evaluate_finite [OF this s'(3-7)] s'(1) show ?thesis by blast
qed

text \<open>
  What holds of \<open>reset\<close> from every prior state: a second \<open>reset\<close> at the same time
  changes nothing; two prior states over the same curve get the same time, span, \<open>recip\<close>,
  \<open>p0\<close> and \<open>p1\<close>, the same tangents when the curve is of a Hermite kind, and the same
  \<open>evaluate()\<close> output.
\<close>

lemma evaluate_ignores_tangents: "evaluate (s\<lparr>m0 := x, m1 := y\<rparr>) = evaluate s"
  by (simp add: evaluate_def Let_def)

lemma span_update_tangents:
  fixes s1 s2 :: CurveIterator
  shows "curve s1 = curve s2 \<Longrightarrow>
   s1\<lparr>time' := a, left := b, right := c, recip := d, p0 := e, p1 := f\<rparr>
   = (s2\<lparr>time' := a, left := b, right := c, recip := d, p0 := e, p1 := f\<rparr>)
       \<lparr>m0 := m0 s1, m1 := m1 s1\<rparr>"
  by (cases s1; cases s2) simp

lemma reset_fields:
  assumes "curve s1 = curve s2" and "reset t s1 = Inr a"
  shows "\<exists>b. reset t s2 = Inr b \<and> b\<lparr>m0 := m0 a, m1 := m1 a\<rparr> = a
           \<and> (isHermite s1 \<or> keys (curve s1) = [] \<or> js_lt t (fst (keys (curve s1) ! 0))
                \<or> js_ge t (fst (keys (curve s1) ! (length (keys (curve s1)) - 1)))
              \<longrightarrow> b = a)"
proof -
  let ?ks = "keys (curve s2)"
  have h: "isHermite s1 = isHermite s2" using assms(1) by (simp add: isHermite_def)
  show ?thesis
  proof (cases "isHermite s1")
    case True
    from reset_cong [of s2 s1 t] assms(1) True h have "reset t s2 = reset t s1" by simp
    with assms(2) show ?thesis by simp
  next
    case False
    note nh = this
    show ?thesis
    proof (cases "?ks = []")
      case True
      with assms show ?thesis by (auto simp: reset_empty all_update_eq [OF assms(1)])
    next
      case False
      note ne = this
      show ?thesis
      proof (cases "js_lt t (fst (?ks ! 0))")
        case True
        with ne assms show ?thesis
          by (auto simp: reset_before_first all_update_eq [OF assms(1)])
      next
        case False
        note nlt = this
        show ?thesis
        proof (cases "js_ge t (fst (?ks ! (length ?ks - 1)))")
          case True
          with ne nlt assms show ?thesis
            by (auto simp: reset_past_last all_update_eq [OF assms(1)])
        next
          case False
          note nge = this
          show ?thesis
          proof (cases "reset_scan ?ks t 0")
            case (Inl e)
            with ne nlt nge assms show ?thesis by (simp add: reset_inside_error)
          next
            case (Inr index)
            from nh h have nh2: "\<not> isHermite s2" by simp
            let ?d = "js_div (Fin 1) (js_sub (fst (?ks ! (index + 1))) (fst (?ks ! index)))"
            let ?F = "\<lambda>s::CurveIterator. s\<lparr>time' := t, left := fst (?ks ! index),
                        right := fst (?ks ! (index + 1)),
                        recip := (if isFinite ?d then ?d else Fin 0),
                        p0 := snd (?ks ! index), p1 := snd (?ks ! (index + 1))\<rparr>"
            from reset_inside_eq [OF ne nlt nge Inr] nh2 have rb: "reset t s2 = Inr (?F s2)"
              by (simp only: if_False)
            from ne nlt nge Inr have "keys (curve s1) \<noteq> []"
              "\<not> js_lt t (fst (keys (curve s1) ! 0))"
              "\<not> js_ge t (fst (keys (curve s1) ! (length (keys (curve s1)) - 1)))"
              "reset_scan (keys (curve s1)) t 0 = Inr index"
              by (simp_all add: assms(1))
            from reset_inside_eq [OF this] nh have "reset t s1 = Inr (?F s1)"
              by (simp only: if_False assms(1))
            with assms(2) have a: "a = ?F s1" by simp
            have "?F s1 = (?F s2)\<lparr>m0 := m0 s1, m1 := m1 s1\<rparr>"
              by (rule span_update_tangents [OF assms(1)])
            with a have "(?F s2)\<lparr>m0 := m0 a, m1 := m1 a\<rparr> = a" by simp
            with rb nh ne nlt nge assms(1) show ?thesis by simp
          qed
        qed
      qed
    qed
  qed
qed

lemma reset_idempotent:
  assumes "reset t s = Inr s'"
  shows "reset t s' = Inr s'"
proof -
  from reset_time [OF assms] have c: "curve s' = curve s" by simp
  from reset_fields [OF c [symmetric] assms] obtain b where
    b: "reset t s' = Inr b" "b\<lparr>m0 := m0 s', m1 := m1 s'\<rparr> = s'"
       "isHermite s \<or> keys (curve s) = [] \<or> js_lt t (fst (keys (curve s) ! 0))
          \<or> js_ge t (fst (keys (curve s) ! (length (keys (curve s)) - 1))) \<longrightarrow> b = s'"
    by blast
  show ?thesis
  proof (cases "isHermite s \<or> keys (curve s) = [] \<or> js_lt t (fst (keys (curve s) ! 0))
          \<or> js_ge t (fst (keys (curve s) ! (length (keys (curve s)) - 1)))")
    case True
    with b(3) have "b = s'" by blast
    with b(1) show ?thesis by simp
  next
    case False
    then have nh: "\<not> isHermite s'" using c by (simp add: isHermite_def)
    from False have ne: "keys (curve s') \<noteq> []"
      and nlt: "\<not> js_lt t (fst (keys (curve s') ! 0))"
      and nge: "\<not> js_ge t (fst (keys (curve s') ! (length (keys (curve s')) - 1)))"
      using c by simp_all
    show ?thesis
    proof (cases "reset_scan (keys (curve s')) t 0")
      case (Inl e)
      from reset_inside_error [OF ne nlt nge Inl] b(1) show ?thesis by simp
    next
      case (Inr index)
      from reset_inside_eq [OF ne nlt nge Inr] nh b(1) have "m0 b = m0 s'" "m1 b = m1 s'"
        by auto
      then have "b\<lparr>m0 := m0 s', m1 := m1 s'\<rparr> = b" by simp
      with b(1,2) show ?thesis by simp
    qed
  qed
qed

lemma reset_evaluate_pure:
  assumes "curve s1 = curve s2" and "reset t s1 = Inr a"
  shows "\<exists>b. reset t s2 = Inr b \<and> curve b = curve a \<and> time' b = time' a
           \<and> left b = left a \<and> right b = right a \<and> recip b = recip a
           \<and> p0 b = p0 a \<and> p1 b = p1 a \<and> evaluate b = evaluate a"
proof -
  from reset_fields [OF assms] obtain b where
    b: "reset t s2 = Inr b" "b\<lparr>m0 := m0 a, m1 := m1 a\<rparr> = a" by blast
  from b(2) have "curve b = curve a \<and> time' b = time' a \<and> left b = left a
      \<and> right b = right a \<and> recip b = recip a \<and> p0 b = p0 a \<and> p1 b = p1 a"
    by (cases a; cases b) auto
  moreover from evaluate_ignores_tangents [where s = b and x = "m0 a" and y = "m1 a"] b(2)
  have "evaluate b = evaluate a" by simp
  ultimately show ?thesis using b(1) by blast
qed

lemma calcTangents_time:
  assumes "calcTangents ks index s = Inr s'"
  shows "calcTangents ks index (s\<lparr>time' := t\<rparr>) = Inr (s'\<lparr>time' := t\<rparr>)"
proof -
  obtain b where b: "key_at ks index = Inr b"
    using assms by (cases "key_at ks index") (simp_all add: calcTangents_def)
  obtain c where c: "key_at ks (index + 1) = Inr c"
    using assms b by (cases "key_at ks (index + 1)") (simp_all add: calcTangents_def)
  let ?A = "(if index = 0 then
             (case key_at ks 0 of Inl e \<Rightarrow> Inl e | Inr k0 \<Rightarrow>
              case key_at ks 1 of Inl e \<Rightarrow> Inl e | Inr k1 \<Rightarrow>
                Inr (js_add (fst k0) (js_sub (fst k0) (fst k1)),
                     js_add (snd k0) (js_sub (snd k0) (snd k1))))
           else key_at ks (index - 1))"
  obtain a where a: "?A = Inr a"
    using assms unfolding calcTangents_def b c sum.case by (cases ?A) simp_all
  let ?D = "(if index + 2 = length ks then
             Inr (js_add (fst c) (js_sub (fst c) (fst b)),
                  js_add (snd c) (js_sub (snd c) (snd b)))
           else key_at ks (index + 2))"
  obtain d where d: "?D = Inr d"
    using assms unfolding calcTangents_def b c a sum.case by (cases ?D) simp_all
  from assms show ?thesis
    unfolding calcTangents_def b c a d sum.case Let_def
    by (cases "type (curve s) = CURVE_CARDINAL_STABLE") auto
qed

lemma reset_time_irrelevant: "reset t (s\<lparr>time' := u\<rparr>) = reset t s"
  by (rule reset_cong) simp_all

text \<open>With increasing key times the search finds the one span that encloses the time.\<close>

lemma reset_scan_unique:
  assumes "sorted_wrt (\<lambda>a b. js_lt (fst a) (fst b)) ks"
    and "\<forall>k\<in>set ks. fst k \<noteq> NaN"
    and "j + 1 < length ks" "js_ge t (fst (ks ! j))" "js_lt t (fst (ks ! (j + 1)))"
  shows "\<not> js_lt t (fst (ks ! 0))" "\<not> js_ge t (fst (ks ! (length ks - 1)))"
    "reset_scan ks t 0 = Inr j"
proof -
  have ne: "ks \<noteq> []" using assms(3) by auto
  have jn: "fst (ks ! j) \<noteq> NaN" using assms(4) by (simp add: js_ge_def)
  from sorted_times_ge [OF assms(1) _ _ jn, of 0] assms(3)
  have "js_ge (fst (ks ! j)) (fst (ks ! 0))" by simp
  with assms(4) have ge0: "js_ge t (fst (ks ! 0))" by (rule js_ge_trans)
  then show "\<not> js_lt t (fst (ks ! 0))" by (simp add: js_ge_def)
  have ln: "fst (ks ! (length ks - 1)) \<noteq> NaN" using assms(2) ne by simp
  from sorted_times_ge [OF assms(1) _ _ ln, of "j + 1"] assms(3)
  have "js_ge (fst (ks ! (length ks - 1))) (fst (ks ! (j + 1)))" by simp
  with assms(5) have ltl: "js_lt t (fst (ks ! (length ks - 1)))" by (rule js_lt_ge_trans)
  then show "\<not> js_ge t (fst (ks ! (length ks - 1)))" by (simp add: js_ge_def)
  from reset_scan_span [OF ne ge0 ltl assms(2)] obtain i where
    i: "reset_scan ks t 0 = Inr i" "i + 1 < length ks"
       "js_ge t (fst (ks ! i))" "js_lt t (fst (ks ! (i + 1)))"
    by blast
  from key_before_span [OF assms(1) i(2) i(4) _ assms(4)] assms(3) have "j \<le> i" by simp
  moreover from key_before_span [OF assms(1) assms(3) assms(5) _ i(3)] i(2) have "i \<le> j"
    by simp
  ultimately show "reset_scan ks t 0 = Inr j" using i(1) by simp
qed


text \<open>
  With increasing key times, \<open>reset\<close> at any time of the span that \<open>reset(x)\<close> has cached
  gives the same cache.
\<close>

lemma reset_same_span:
  assumes "sorted_wrt (\<lambda>a b. js_lt (fst a) (fst b)) (keys (curve s))"
    and "\<forall>k\<in>set (keys (curve s)). fst k \<noteq> NaN"
    and "reset x s = Inr s'"
    and "js_ge t (left s')" "js_lt t (right s')"
  shows "reset t s = Inr (s'\<lparr>time' := t\<rparr>)"
proof -
  let ?ks = "keys (curve s)"
  show ?thesis
  proof (cases "?ks = []")
    case True
    with assms(3) show ?thesis by (auto simp: reset_empty)
  next
    case False
    note ne = this
    show ?thesis
    proof (cases "js_lt x (fst (?ks ! 0))")
      case True
      with ne assms(3) have s': "s' = s\<lparr>time' := x, left := NegInf, right := fst (?ks ! 0),
          recip := Fin 0, p0 := snd (?ks ! 0), p1 := snd (?ks ! 0), m0 := Fin 0, m1 := Fin 0\<rparr>"
        by (simp add: reset_before_first)
      with assms(5) have "js_lt t (fst (?ks ! 0))" by simp
      with ne s' show ?thesis by (simp add: reset_before_first)
    next
      case False
      note nlt = this
      show ?thesis
      proof (cases "js_ge x (fst (?ks ! (length ?ks - 1)))")
        case True
        with ne nlt assms(3) have s': "s' = s\<lparr>time' := x,
            left := fst (?ks ! (length ?ks - 1)), right := PosInf, recip := Fin 0,
            p0 := snd (?ks ! (length ?ks - 1)), p1 := snd (?ks ! (length ?ks - 1)),
            m0 := Fin 0, m1 := Fin 0\<rparr>"
          by (simp add: reset_past_last)
        with assms(4) have gel: "js_ge t (fst (?ks ! (length ?ks - 1)))" by simp
        have ln: "fst (?ks ! (length ?ks - 1)) \<noteq> NaN" using assms(2) ne by simp
        from sorted_times_ge [OF assms(1) _ _ ln, of 0] ne
        have "js_ge (fst (?ks ! (length ?ks - 1))) (fst (?ks ! 0))" by simp
        with gel have "js_ge t (fst (?ks ! 0))" by (rule js_ge_trans)
        then have "\<not> js_lt t (fst (?ks ! 0))" by (simp add: js_ge_def)
        with ne gel s' show ?thesis by (simp add: reset_past_last)
      next
        case False
        note nge = this
        show ?thesis
        proof (cases "reset_scan ?ks x 0")
          case (Inl e)
          from reset_inside_error [OF ne nlt nge Inl] assms(3) show ?thesis by simp
        next
          case (Inr j)
          from reset_scan_bound [OF Inr] have jb: "j + 1 < length ?ks" by simp
          from reset_inside [OF ne nlt nge Inr] assms(3) have
            lr: "left s' = fst (?ks ! j)" "right s' = fst (?ks ! (j + 1))" by auto
          from assms(4,5) lr have tj: "js_ge t (fst (?ks ! j))" "js_lt t (fst (?ks ! (j + 1)))"
            by simp_all
          note u = reset_scan_unique [OF assms(1,2) jb tj]
          let ?d = "js_div (Fin 1) (js_sub (fst (?ks ! (j + 1))) (fst (?ks ! j)))"
          let ?F = "\<lambda>u. s\<lparr>time' := u, left := fst (?ks ! j), right := fst (?ks ! (j + 1)),
                      recip := (if isFinite ?d then ?d else Fin 0),
                      p0 := snd (?ks ! j), p1 := snd (?ks ! (j + 1))\<rparr>"
          have rx: "reset x s = (if isHermite s then calcTangents ?ks j (?F x) else Inr (?F x))"
            by (rule reset_inside_eq [OF ne nlt nge Inr])
          have rt: "reset t s = (if isHermite s then calcTangents ?ks j (?F t) else Inr (?F t))"
            by (rule reset_inside_eq [OF ne u])
          have F: "?F t = (?F x)\<lparr>time' := t\<rparr>" by simp
          show ?thesis
          proof (cases "isHermite s")
            case True
            with rx assms(3) have "calcTangents ?ks j (?F x) = Inr s'" by simp
            from calcTangents_time [OF this, of t]
            have "calcTangents ?ks j (?F t) = Inr (s'\<lparr>time' := t\<rparr>)" by (subst F)
            with True show ?thesis by (simp only: rt if_True)
          next
            case False
            with rx assms(3) have "s' = ?F x" by simp
            with F have "?F t = s'\<lparr>time' := t\<rparr>" by (simp only:)
            with False show ?thesis by (simp only: rt if_False)
          qed
        qed
      qed
    qed
  qed
qed

lemma reset_establishes:
  assumes "sorted_wrt (\<lambda>a b. js_lt (fst a) (fst b)) (keys (curve s))"
    and "\<forall>k\<in>set (keys (curve s)). fst k \<noteq> NaN"
    and "tangents_cleared s"
    and "reset (Fin x) s = Inr s'"
  shows "cache_valid s' \<and> in_span s' \<and> curve s' = curve s \<and> time' s' = Fin x"
proof -
  from reset_time [OF assms(4)] have ts: "time' s' = Fin x" "curve s' = curve s" by simp_all
  from reset_tangents_cleared [OF assms(4,3)] have tc: "tangents_cleared s'" .
  have "reset t s' = Inr (s'\<lparr>time' := t\<rparr>)" if "js_ge t (left s')" "js_lt t (right s')" for t
  proof -
    have "reset t s' = reset t s"
      using ts(2) tc assms(3) by (intro reset_cong) (auto simp: tangents_cleared_def isHermite_def)
    with reset_same_span [OF assms(1,2,4) that] show ?thesis by simp
  qed
  with tc have cv: "cache_valid s'" by (simp add: cache_valid_def)
  from reset_span [OF assms(2), of x] assms(4) ts(1)
  have "js_ge (Fin x) (left s')" "js_lt (Fin x) (right s')" by auto
  with ts(1) have "in_span s'" by (simp add: in_span_def js_lt_imp_ge)
  with cv ts show ?thesis by simp
qed

lemma retime_valid:
  assumes "cache_valid s"
  shows "cache_valid (s\<lparr>time' := u\<rparr>)"
  using assms
  by (simp add: cache_valid_def tangents_cleared_def isHermite_def reset_time_irrelevant)

text \<open>
  One step: unless a forward step lands exactly on \<open>right\<close>, \<open>advance\<close> makes the move
  that \<open>value\<close> makes to the new time.
\<close>

lemma advance_as_value:
  assumes "in_span s"
    and "\<not> (js_ge (Fin a) (Fin 0) \<and> js_seq (js_add (time' s) (Fin a)) (right s))"
  shows "advance (Fin a) s =
     (if js_lt (js_add (time' s) (Fin a)) (left s) \<or> js_ge (js_add (time' s) (Fin a)) (right s)
      then reset (js_add (time' s) (Fin a)) s
      else Inr (s\<lparr>time' := js_add (time' s) (Fin a)\<rparr>))"
proof -
  from assms(1) obtain x where x: "time' s = Fin x"
    by (auto simp: in_span_def isFinite_iff)
  from assms(1) x have l: "left s = NegInf \<or> (\<exists>l. left s = Fin l \<and> l \<le> x)"
    by (cases "left s") (auto simp: in_span_def js_ge_def)
  from assms(1) x have r: "right s = PosInf \<or> (\<exists>r. right s = Fin r \<and> x \<le> r)"
    by (cases "right s") (auto simp: in_span_def js_ge_def)
  from l r assms(2) show ?thesis
    by (auto simp: advance_eq x reset_time_irrelevant js_ge_def js_gt_def js_seq_def)
qed


lemma advance_keeps:
  assumes "sorted_wrt (\<lambda>a b. js_lt (fst a) (fst b)) (keys (curve s))"
    and "\<forall>k\<in>set (keys (curve s)). fst k \<noteq> NaN"
    and "cache_valid s" "in_span s"
    and "\<not> (js_ge (Fin a) (Fin 0) \<and> js_seq (js_add (time' s) (Fin a)) (right s))"
    and "advance (Fin a) s = Inr s'"
  shows "cache_valid s' \<and> in_span s' \<and> curve s' = curve s
       \<and> time' s' = js_add (time' s) (Fin a)"
proof -
  from assms(4) obtain x where x: "time' s = Fin x"
    by (auto simp: in_span_def isFinite_iff)
  let ?t = "Fin (x + a)"
  have t: "js_add (time' s) (Fin a) = ?t" by (simp add: x)
  note eq = advance_as_value [OF assms(4,5), unfolded t]
  show ?thesis
  proof (cases "js_lt ?t (left s) \<or> js_ge ?t (right s)")
    case True
    with eq assms(6) have "reset ?t s = Inr s'" by simp
    from reset_establishes [OF assms(1,2) _ this] assms(3) t show ?thesis
      by (simp add: cache_valid_def)
  next
    case False
    with eq assms(6) have s': "s' = s\<lparr>time' := ?t\<rparr>" by simp
    from assms(4) have "left s \<noteq> NaN" "right s \<noteq> NaN" by (auto simp: in_span_def js_ge_def)
    with False have "js_ge ?t (left s)" "js_lt ?t (right s)" by (auto simp: js_ge_def)
    then have "in_span (s\<lparr>time' := ?t\<rparr>)" by (simp add: in_span_def js_lt_imp_ge)
    with retime_valid [OF assms(3), of ?t] s' t show ?thesis by simp
  qed
qed

lemma value_as_advance:
  assumes "in_span s"
    and "\<not> (js_ge (Fin a) (Fin 0) \<and> js_seq (js_add (time' s) (Fin a)) (right s))"
  shows "value_at (js_add (time' s) (Fin a)) s =
     (case advance (Fin a) s of Inl e \<Rightarrow> Inl e
      | Inr s' \<Rightarrow> (case evaluate s' of Inl e \<Rightarrow> Inl e | Inr v \<Rightarrow> Inr (v, s')))"
  by (simp add: value_at_def advance_as_value [OF assms])

text \<open>
  A run: from a state with a valid cache, over a curve with increasing key times, with
  finite increments of which no forward one lands exactly on the cached \<open>right\<close>,
  \<open>advance\<close> followed by \<open>evaluate()\<close> gives what \<open>value\<close> gives at the cumulative times.
\<close>

lemma advance_value_agree_from:
  assumes "sorted_wrt (\<lambda>a b. js_lt (fst a) (fst b)) (keys c)"
    and "\<forall>k\<in>set (keys c). fst k \<noteq> NaN"
    and "curve s = c" "cache_valid s" "in_span s"
    and "\<not> lands_on_right (map Fin as) s"
  shows "advance_evaluate_all (map Fin as) s = value_all (cumulative (time' s) (map Fin as)) s"
  using assms(3-6)
proof (induction as arbitrary: s)
  case Nil
  show ?case by simp
next
  case (Cons a as)
  from Cons.prems(4) have
    nl: "\<not> (js_ge (Fin a) (Fin 0) \<and> js_seq (js_add (time' s) (Fin a)) (right s))"
    by simp
  note v = value_as_advance [OF Cons.prems(3) nl]
  show ?case
  proof (cases "advance (Fin a) s")
    case (Inl e)
    with v show ?thesis by simp
  next
    case (Inr s')
    from Cons.prems(1) assms(1,2) have
      "sorted_wrt (\<lambda>a b. js_lt (fst a) (fst b)) (keys (curve s))"
      "\<forall>k\<in>set (keys (curve s)). fst k \<noteq> NaN" by simp_all
    from advance_keeps [OF this Cons.prems(2,3) nl Inr] Cons.prems(1) have
      k: "cache_valid s'" "in_span s'" "curve s' = c" "time' s' = js_add (time' s) (Fin a)"
      by simp_all
    from Cons.prems(4) Inr have "\<not> lands_on_right (map Fin as) s'" by simp
    from Cons.IH [OF k(3,1,2) this] k(4) have
      ih: "advance_evaluate_all (map Fin as) s'
           = value_all (cumulative (js_add (time' s) (Fin a)) (map Fin as)) s'"
      by simp
    show ?thesis
    proof (cases "evaluate s'")
      case (Inl e)
      with Inr v show ?thesis by simp
    next
      case (Inr val)
      with \<open>advance (Fin a) s = Inr s'\<close> v ih show ?thesis by simp
    qed
  qed
qed

lemma advance_value_agree:
  assumes "sorted_wrt (\<lambda>a b. js_lt (fst a) (fst b)) (keys c)"
    and "\<forall>k\<in>set (keys c). fst k \<noteq> NaN"
    and "new_CurveIterator c time = Inr s" "isFinite (time' s)"
    and "\<not> lands_on_right (map Fin as) s"
  shows "advance_evaluate_all (map Fin as) s = value_all (cumulative (time' s) (map Fin as)) s"
proof -
  let ?t0 = "case time of None \<Rightarrow> Fin 0 | Some t \<Rightarrow> if t = NaN \<or> t = Fin 0 then Fin 0 else t"
  let ?s0 = "\<lparr>curve = c, time' = ?t0, left = NegInf, right = PosInf, recip = Fin 0,
              p0 = Fin 0, p1 = Fin 0, m0 = Fin 0, m1 = Fin 0\<rparr>"
  from assms(3) have r: "reset ?t0 ?s0 = Inr s" by (simp add: new_CurveIterator_def Let_def)
  from reset_time [OF r] assms(4) obtain x where x: "?t0 = Fin x"
    by (auto simp: isFinite_iff)
  have tc: "tangents_cleared ?s0" by (simp add: tangents_cleared_def)
  from r x have r': "reset (Fin x) ?s0 = Inr s" by simp
  from reset_establishes [OF _ _ tc r'] assms(1,2) have
    "cache_valid s" "in_span s" "curve s = c" by simp_all
  from advance_value_agree_from [OF assms(1,2) this(3,1,2) assms(5)] show ?thesis .
qed

section \<open>Claims\<close>

text \<open>
  C1. The claim: for every curve and every sequence of increments, \<open>advance\<close> with each
  increment followed by \<open>evaluate()\<close> gives what \<open>value\<close> gives at the cumulative times on a
  fresh iterator. On the Step curve with keys \<open>(0,0), (1,1), (3,2)\<close>, a fresh iterator at
  time \<open>0\<close> and the single increment \<open>1\<close>, which lands exactly on the key at time \<open>1\<close>,
  \<open>advance\<close> keeps the span \<open>[0, 1)\<close> (its test is \<open>time_ > right\<close>) and \<open>evaluate()\<close>
  returns \<open>0\<close>, while \<open>value(1)\<close> (its test is \<open>time >= right\<close>) moves to the span
  \<open>[1, 3)\<close> and returns \<open>1\<close>. This is the only way the two differ on a curve with
  increasing key times and finite increments (\<open>advance_value_agree\<close>).
\<close>

theorem advance_value_differ_at_key:
  "(case new_CurveIterator (example_curve CURVE_STEP) None of Inl e \<Rightarrow> Inl e
    | Inr it \<Rightarrow> advance_evaluate_all [Fin 1] it) = Inr [Fin 0]
   \<and> (case new_CurveIterator (example_curve CURVE_STEP) None of Inl e \<Rightarrow> Inl e
    | Inr it \<Rightarrow> value_all (cumulative (Fin 0) [Fin 1]) it) = Inr [Fin 1]"
  by (simp add: example_defs run_defs)

text \<open>
  C2. The claim: for a Hermite-family curve \<open>evaluate()\<close> returns the cubic Hermite basis
  applied to the cached \<open>p0\<close>, \<open>p1\<close>, \<open>m0\<close>, \<open>m1\<close> and the normalised parameter. On the
  CatmullRom curve with keys \<open>(0,0), (1,1), (3,2)\<close>, for an iterator created at time
  \<open>0.5\<close>, the cached values are
  \<open>p0 = 0\<close>, \<open>p1 = 1\<close>, \<open>m0 = 1\<close>, \<open>m1 = 0.75\<close>, the basis gives \<open>17/32\<close>, and
  \<open>evaluate()\<close> throws a TypeError, since it calls \<open>_evaluateHermite2\<close>, which does not
  exist.
\<close>

theorem evaluate_catmull_throws:
  "new_CurveIterator (example_curve CURVE_CATMULL) (Some (Fin (1 / 2))) =
     Inr \<lparr>curve = example_curve CURVE_CATMULL, time' = Fin (1 / 2), left = Fin 0,
          right = Fin 1, recip = Fin 1, p0 = Fin 0, p1 = Fin 1, m0 = Fin 1, m1 = Fin (3 / 4)\<rparr>
   \<and> evaluate \<lparr>curve = example_curve CURVE_CATMULL, time' = Fin (1 / 2), left = Fin 0,
          right = Fin 1, recip = Fin 1, p0 = Fin 0, p1 = Fin 1, m0 = Fin 1, m1 = Fin (3 / 4)\<rparr>
       = Inl TypeError
   \<and> evaluateHermite (Fin 0) (Fin 1) (Fin 1) (Fin (3 / 4)) (Fin (1 / 2)) = Fin (17 / 32)"
  by (simp add: example_defs run_defs evaluateHermite_def)

text \<open>
  C3. The claim: for a curve with zero keys, of any interpolation type, \<open>evaluate()\<close>
  returns \<open>0\<close>. For the empty Cardinal curve the constructor leaves the span
  \<open>(-Infinity, +Infinity)\<close> with all cached values \<open>0\<close>, and \<open>evaluate()\<close> throws a
  TypeError.
\<close>

theorem evaluate_empty_cardinal_throws:
  "new_CurveIterator (empty_curve CURVE_CARDINAL) None =
     Inr \<lparr>curve = empty_curve CURVE_CARDINAL, time' = Fin 0, left = NegInf, right = PosInf,
          recip = Fin 0, p0 = Fin 0, p1 = Fin 0, m0 = Fin 0, m1 = Fin 0\<rparr>
   \<and> evaluate \<lparr>curve = empty_curve CURVE_CARDINAL, time' = Fin 0, left = NegInf,
          right = PosInf, recip = Fin 0, p0 = Fin 0, p1 = Fin 0, m0 = Fin 0, m1 = Fin 0\<rparr>
       = Inl TypeError"
  by (simp add: example_defs run_defs)

text \<open>
  C4. The claim: for finite key times and values and a finite query time \<open>evaluate()\<close>
  returns a finite number. On the CardinalStable curve with the single key \<open>(0, 5)\<close>,
  \<open>value(7)\<close> on a fresh iterator returns no number: \<open>evaluate()\<close> throws a TypeError.
\<close>

theorem evaluate_single_key_stable_throws:
  "value_at (Fin 7)
     \<lparr>curve = single_key_curve CURVE_CARDINAL_STABLE, time' = Fin 0, left = Fin 0,
      right = PosInf, recip = Fin 0, p0 = Fin 5, p1 = Fin 5, m0 = Fin 0, m1 = Fin 0\<rparr>
   = Inl TypeError
   \<and> new_CurveIterator (single_key_curve CURVE_CARDINAL_STABLE) None =
     Inr \<lparr>curve = single_key_curve CURVE_CARDINAL_STABLE, time' = Fin 0, left = Fin 0,
      right = PosInf, recip = Fin 0, p0 = Fin 5, p1 = Fin 5, m0 = Fin 0, m1 = Fin 0\<rparr>"
  by (simp add: example_defs run_defs)

text \<open>
  C5. For every Step curve with at least one key, strictly increasing key times (none of
  them NaN) and every query time \<open>t\<close> that is not NaN, \<open>evaluate()\<close> after \<open>reset(t)\<close>
  returns the first key's value when \<open>t\<close> is before the first key's time, and otherwise the
  value of the greatest key whose time is \<open><= t\<close>.
\<close>

theorem step_value:
  assumes "type (curve s) = CURVE_STEP"
    and "ks = keys (curve s)"
    and "ks \<noteq> []"
    and "sorted_wrt (\<lambda>a b. js_lt (fst a) (fst b)) ks"
    and "\<forall>k\<in>set ks. fst k \<noteq> NaN"
    and "t \<noteq> NaN"
  shows "\<exists>s' v. reset t s = Inr s' \<and> evaluate s' = Inr v
           \<and> (if js_lt t (fst (ks ! 0)) then v = snd (ks ! 0)
               else \<exists>k\<in>set ks. js_ge t (fst k)
                      \<and> (\<forall>k'\<in>set ks. js_ge t (fst k') \<longrightarrow> js_ge (fst k) (fst k'))
                      \<and> v = snd k)"
proof (cases "js_lt t (fst (ks ! 0))")
  case True
  with assms(1,2,3) show ?thesis
    by (simp add: reset_before_first evaluate_def)
next
  case False
  note nlt = this
  have first: "fst (ks ! 0) \<noteq> NaN" and lastn: "fst (ks ! (length ks - 1)) \<noteq> NaN"
    using assms(3,5) by simp_all
  from nlt first assms(6) have ge0: "js_ge t (fst (ks ! 0))" by (simp add: js_ge_def)
  show ?thesis
  proof (cases "js_ge t (fst (ks ! (length ks - 1)))")
    case True
    let ?k = "ks ! (length ks - 1)"
    from assms(1,2,3) nlt True have
      r: "\<exists>s'. reset t s = Inr s' \<and> evaluate s' = Inr (snd ?k)"
      by (simp add: reset_past_last evaluate_def)
    have mem: "?k \<in> set ks" using assms(3) by simp
    have "\<forall>k'\<in>set ks. js_ge t (fst k') \<longrightarrow> js_ge (fst ?k) (fst k')"
    proof (intro ballI impI)
      fix k' assume "k' \<in> set ks"
      then obtain i where i: "i < length ks" "k' = ks ! i" by (auto simp: in_set_conv_nth)
      then have "i \<le> length ks - 1" by simp
      from sorted_times_ge [OF assms(4) this _ lastn] assms(3) i(2)
      show "js_ge (fst ?k) (fst k')" by simp
    qed
    with r mem True nlt show ?thesis by auto
  next
    case False
    note nge = this
    from nge lastn assms(6) have ltl: "js_lt t (fst (ks ! (length ks - 1)))"
      by (simp add: js_ge_def)
    from reset_scan_span [OF assms(3) ge0 ltl assms(5)] obtain j where
      j: "reset_scan ks t 0 = Inr j" "j + 1 < length ks"
         "js_ge t (fst (ks ! j))" "js_lt t (fst (ks ! (j + 1)))"
      by blast
    from reset_inside [of s t j] assms(2,3) nlt nge j(1) obtain s' where
      s': "reset t s = Inr s'" "curve s' = curve s" "p0 s' = snd (ks ! j)"
      by auto
    from s'(2) assms(1) have ev: "evaluate s' = Inr (snd (ks ! j))"
      by (simp add: evaluate_def s'(3))
    have mem: "ks ! j \<in> set ks" using j(2) by simp
    have jn: "fst (ks ! j) \<noteq> NaN" using assms(5) mem by blast
    have "\<forall>k'\<in>set ks. js_ge t (fst k') \<longrightarrow> js_ge (fst (ks ! j)) (fst k')"
    proof (intro ballI impI)
      fix k' assume "k' \<in> set ks" and ge: "js_ge t (fst k')"
      then obtain i where i: "i < length ks" "k' = ks ! i" by (auto simp: in_set_conv_nth)
      from key_before_span [OF assms(4) j(2) j(4) i(1)] ge i(2) have "i \<le> j" by simp
      from sorted_times_ge [OF assms(4) this _ jn] j(2) i(2)
      show "js_ge (fst (ks ! j)) (fst k')" by simp
    qed
    with s'(1) ev mem j(3) nlt show ?thesis by auto
  qed
qed


theorem step_value_witness:
  "type (curve (example_state CURVE_STEP)) = CURVE_STEP
   \<and> sorted_wrt (\<lambda>a b. js_lt (fst a) (fst b)) example_keys
   \<and> NaN \<notin> set (map fst example_keys)
   \<and> (\<exists>s'. reset (Fin 2) (example_state CURVE_STEP) = Inr s' \<and> evaluate s' = Inr (Fin 1))"
proof -
  have ty: "type (curve (example_state CURVE_STEP)) = CURVE_STEP"
    by (simp add: example_defs)
  have k: "example_keys = keys (curve (example_state CURVE_STEP))"
    by (simp add: example_defs)
  have n: "example_keys \<noteq> []" by (simp add: example_defs)
  have s: "sorted_wrt (\<lambda>a b. js_lt (fst a) (fst b)) example_keys"
    by (simp add: example_defs)
  have nn: "\<forall>k\<in>set example_keys. fst k \<noteq> NaN" by (simp add: example_defs)
  have t: "Fin 2 \<noteq> NaN" by simp
  from step_value [OF ty k n s nn t] obtain s' v where
    r: "reset (Fin 2) (example_state CURVE_STEP) = Inr s'" "evaluate s' = Inr v"
    and c: "if js_lt (Fin 2) (fst (example_keys ! 0)) then v = snd (example_keys ! 0)
            else \<exists>k\<in>set example_keys. js_ge (Fin 2) (fst k)
                   \<and> (\<forall>k'\<in>set example_keys. js_ge (Fin 2) (fst k') \<longrightarrow> js_ge (fst k) (fst k'))
                   \<and> v = snd k"
    by blast
  from c have "v = Fin 1" by (simp add: example_defs js_ge_def)
  moreover have "NaN \<notin> set (map fst example_keys)" by (simp add: example_defs)
  ultimately show ?thesis using r ty s by blast
qed

text \<open>
  C6. The claim: after \<open>reset(t)\<close> the cached fields, \<open>m0\<close> and \<open>m1\<close> among them, are a
  function of the curve and \<open>t\<close> alone, whatever the state before. Take the CatmullRom curve
  with keys \<open>(0,0), (1,1), (3,2)\<close> and an iterator created at time \<open>0.5\<close>: it caches
  \<open>m0 = 1\<close>, \<open>m1 = 0.75\<close>. When the owner then makes the curve Linear and calls
  \<open>reset(0.5)\<close>, the branch inside the key range writes the tangents only for a Hermite
  kind, so \<open>m0 = 1\<close> and \<open>m1 = 0.75\<close> stay; an iterator created on the Linear curve at
  \<open>0.5\<close> has \<open>m0 = m1 = 0\<close>. The three other branches of \<open>reset\<close> set both to \<open>0\<close>.
\<close>

theorem reset_keeps_stale_tangents:
  "new_CurveIterator (example_curve CURVE_CATMULL) (Some (Fin (1 / 2))) =
     Inr \<lparr>curve = example_curve CURVE_CATMULL, time' = Fin (1 / 2), left = Fin 0,
          right = Fin 1, recip = Fin 1, p0 = Fin 0, p1 = Fin 1, m0 = Fin 1, m1 = Fin (3 / 4)\<rparr>
   \<and> reset (Fin (1 / 2))
        \<lparr>curve = example_curve CURVE_LINEAR, time' = Fin (1 / 2), left = Fin 0,
         right = Fin 1, recip = Fin 1, p0 = Fin 0, p1 = Fin 1, m0 = Fin 1, m1 = Fin (3 / 4)\<rparr> =
     Inr \<lparr>curve = example_curve CURVE_LINEAR, time' = Fin (1 / 2), left = Fin 0,
          right = Fin 1, recip = Fin 1, p0 = Fin 0, p1 = Fin 1, m0 = Fin 1, m1 = Fin (3 / 4)\<rparr>
   \<and> new_CurveIterator (example_curve CURVE_LINEAR) (Some (Fin (1 / 2))) =
     Inr \<lparr>curve = example_curve CURVE_LINEAR, time' = Fin (1 / 2), left = Fin 0,
          right = Fin 1, recip = Fin 1, p0 = Fin 0, p1 = Fin 1, m0 = Fin 0, m1 = Fin 0\<rparr>
   \<and> (example_curve CURVE_CATMULL)\<lparr>type := CURVE_LINEAR\<rparr> = example_curve CURVE_LINEAR"
  by (simp add: example_defs run_defs)

text \<open>
  C7. For every iterator state and every amount, \<open>advance(amount)\<close> adds the amount to the
  current time. It performs a full \<open>reset\<close> at the new time exactly when the amount is
  \<open>>= 0\<close> and the new time is strictly greater than \<open>right\<close>, or the amount is \<open>< 0\<close>
  and the new time is strictly less than \<open>left\<close>; in every other case the iterator is the
  old one with only the time changed, so \<open>left\<close>, \<open>right\<close>, \<open>recip\<close>, \<open>p0\<close>, \<open>p1\<close>,
  \<open>m0\<close> and \<open>m1\<close> are untouched. Whenever \<open>advance\<close> returns, the time is the old time
  plus the amount.
\<close>

theorem advance_frame:
  "advance amount s =
     (if (js_ge amount (Fin 0) \<and> js_gt (js_add (time' s) amount) (right s))
         \<or> (js_lt amount (Fin 0) \<and> js_lt (js_add (time' s) amount) (left s))
      then reset (js_add (time' s) amount) (s\<lparr>time' := js_add (time' s) amount\<rparr>)
      else Inr (s\<lparr>time' := js_add (time' s) amount\<rparr>))
   \<and> (\<forall>s'. advance amount s = Inr s' \<longrightarrow>
         time' s' = js_add (time' s) amount \<and> curve s' = curve s)"
proof
  have nan: "\<not> js_ge amount (Fin 0) \<Longrightarrow> \<not> js_lt amount (Fin 0) \<Longrightarrow>
             \<not> js_lt (js_add (time' s) amount) (left s)"
    by (cases amount; cases "time' s") (auto simp: js_ge_def)
  show "advance amount s =
     (if (js_ge amount (Fin 0) \<and> js_gt (js_add (time' s) amount) (right s))
         \<or> (js_lt amount (Fin 0) \<and> js_lt (js_add (time' s) amount) (left s))
      then reset (js_add (time' s) amount) (s\<lparr>time' := js_add (time' s) amount\<rparr>)
      else Inr (s\<lparr>time' := js_add (time' s) amount\<rparr>))"
    using nan by (auto simp: advance_def Let_def js_ge_def)
  show "\<forall>s'. advance amount s = Inr s' \<longrightarrow>
         time' s' = js_add (time' s) amount \<and> curve s' = curve s"
    by (auto simp: advance_def Let_def split: if_splits dest!: reset_time)
qed


theorem advance_frame_witness:
  "advance (Fin (1 / 2)) (example_state CURVE_LINEAR)
     = Inr ((example_state CURVE_LINEAR)\<lparr>time' := Fin (1 / 2)\<rparr>)
   \<and> advance (Fin 2) (example_state CURVE_LINEAR)
     = reset (Fin 2) ((example_state CURVE_LINEAR)\<lparr>time' := Fin 2\<rparr>)
   \<and> advance (Fin 1) (example_state CURVE_LINEAR)
     = Inr ((example_state CURVE_LINEAR)\<lparr>time' := Fin 1\<rparr>)"
proof (intro conjI)
  show "advance (Fin (1 / 2)) (example_state CURVE_LINEAR)
     = Inr ((example_state CURVE_LINEAR)\<lparr>time' := Fin (1 / 2)\<rparr>)"
    by (subst advance_frame [THEN conjunct1])
       (simp add: example_state_def js_ge_def js_gt_def)
  show "advance (Fin 2) (example_state CURVE_LINEAR)
     = reset (Fin 2) ((example_state CURVE_LINEAR)\<lparr>time' := Fin 2\<rparr>)"
    by (subst advance_frame [THEN conjunct1])
       (simp add: example_state_def js_ge_def js_gt_def)
  show "advance (Fin 1) (example_state CURVE_LINEAR)
     = Inr ((example_state CURVE_LINEAR)\<lparr>time' := Fin 1\<rparr>)"
    by (subst advance_frame [THEN conjunct1])
       (simp add: example_state_def js_ge_def js_gt_def)
qed

text \<open>
  C8. For every CardinalStable curve with at least two keys, strictly increasing key times
  and a query time strictly inside the key range, \<open>reset\<close> finds the span \<open>i\<close> with
  \<open>keys[i].time <= t < keys[i+1].time\<close> and sets
  \<open>m0 = tension * s1 * (c.v - a.v)\<close> and \<open>m1 = tension * s2 * (d.v - b.v)\<close>, where
  \<open>s1 = 2*(c.t - b.t)/(c.t - a.t)\<close> and \<open>s2 = 2*(c.t - b.t)/(d.t - b.t)\<close> are each replaced
  by \<open>0\<close> when not finite, \<open>b = keys[i]\<close>, \<open>c = keys[i+1]\<close>, \<open>a\<close> is \<open>keys[i-1]\<close> or, for
  \<open>i = 0\<close>, the extrapolation of the first two keys, and \<open>d\<close> is \<open>keys[i+2]\<close> or, for the last
  span, the extrapolation of the last two keys.
\<close>

theorem cardinal_stable_tangents:
  assumes "type (curve s) = CURVE_CARDINAL_STABLE"
    and "ks = keys (curve s)"
    and "sorted_wrt (\<lambda>a b. js_lt (fst a) (fst b)) ks"
    and "2 \<le> length ks"
    and "js_lt (fst (ks ! 0)) t"
    and "js_lt t (fst (ks ! (length ks - 1)))"
  shows "\<exists>i s'. i + 1 < length ks \<and> js_ge t (fst (ks ! i)) \<and> js_lt t (fst (ks ! (i + 1)))
     \<and> reset t s = Inr s'
     \<and> (let a = left_neighbour ks i; b = ks ! i; c = ks ! (i + 1); d = right_neighbour ks i;
             s1 = guard_finite (js_div (js_mul (Fin 2) (js_sub (fst c) (fst b)))
                                       (js_sub (fst c) (fst a)));
             s2 = guard_finite (js_div (js_mul (Fin 2) (js_sub (fst c) (fst b)))
                                       (js_sub (fst d) (fst b)))
         in m0 s' = js_mul (js_mul (tension (curve s)) s1) (js_sub (snd c) (snd a))
          \<and> m1 s' = js_mul (js_mul (tension (curve s)) s2) (js_sub (snd d) (snd b)))"
proof -
  from assms(4) have ne: "ks \<noteq> []" by auto
  have nn: "\<forall>k\<in>set ks. fst k \<noteq> NaN"
  proof
    fix k assume "k \<in> set ks"
    then obtain i where i: "i < length ks" "k = ks ! i" by (auto simp: in_set_conv_nth)
    show "fst k \<noteq> NaN"
    proof (cases "i = 0")
      case True
      with assms(5) i(2) show ?thesis using js_lt_not_NaN by blast
    next
      case False
      then have "0 < i" by simp
      from sorted_times_lt [OF assms(3) this i(1)] i(2) show ?thesis
        using js_lt_not_NaN by blast
    qed
  qed
  from assms(5) have ge0: "js_ge t (fst (ks ! 0))" by (rule js_lt_imp_ge)
  then have nlt: "\<not> js_lt t (fst (ks ! 0))" by (simp add: js_ge_def)
  from assms(6) have nge: "\<not> js_ge t (fst (ks ! (length ks - 1)))" by (simp add: js_ge_def)
  from reset_scan_span [OF ne ge0 assms(6) nn] obtain j where
    j: "reset_scan ks t 0 = Inr j" "j + 1 < length ks"
       "js_ge t (fst (ks ! j))" "js_lt t (fst (ks ! (j + 1)))"
    by blast
  let ?d = "js_div (Fin 1) (js_sub (fst (ks ! (j + 1))) (fst (ks ! j)))"
  let ?s1 = "s\<lparr>time' := t, left := fst (ks ! j), right := fst (ks ! (j + 1)),
               recip := (if isFinite ?d then ?d else Fin 0),
               p0 := snd (ks ! j), p1 := snd (ks ! (j + 1))\<rparr>"
  have r: "reset t s = calcTangents ks j ?s1"
    using assms(1,2) ne nlt nge j(1) by (simp add: reset_def Let_def isHermite_def)
  have ty: "type (curve ?s1) = CURVE_CARDINAL_STABLE" using assms(1) by simp
  from calcTangents_stable [OF ty j(2)] obtain s' where
    s': "calcTangents ks j ?s1 = Inr s'"
    and m: "m0 s' = js_mul (js_mul (tension (curve ?s1))
                  (guard_finite (js_div (js_mul (Fin 2) (js_sub (fst (ks ! (j + 1))) (fst (ks ! j))))
                                        (js_sub (fst (ks ! (j + 1))) (fst (left_neighbour ks j))))))
                (js_sub (snd (ks ! (j + 1))) (snd (left_neighbour ks j)))"
       "m1 s' = js_mul (js_mul (tension (curve ?s1))
                  (guard_finite (js_div (js_mul (Fin 2) (js_sub (fst (ks ! (j + 1))) (fst (ks ! j))))
                                        (js_sub (fst (right_neighbour ks j)) (fst (ks ! j))))))
                (js_sub (snd (right_neighbour ks j)) (snd (ks ! j)))"
    by blast
  have "reset t s = Inr s'" using r s' by simp
  with j(2,3,4) m show ?thesis
    by (intro exI [of _ j] exI [of _ s']) (simp add: Let_def)
qed


theorem cardinal_stable_tangents_witness:
  "sorted_wrt (\<lambda>a b. js_lt (fst a) (fst b)) example_keys
   \<and> js_lt (fst (example_keys ! 0)) (Fin 2)
   \<and> js_lt (Fin 2) (fst (example_keys ! (length example_keys - 1)))
   \<and> (\<exists>s'. reset (Fin 2) (example_state CURVE_CARDINAL_STABLE) = Inr s'
          \<and> m0 s' = Fin (4 / 3) \<and> m1 s' = Fin 1)"
proof -
  have ty: "type (curve (example_state CURVE_CARDINAL_STABLE)) = CURVE_CARDINAL_STABLE"
    by (simp add: example_defs)
  have k: "example_keys = keys (curve (example_state CURVE_CARDINAL_STABLE))"
    by (simp add: example_defs)
  have s: "sorted_wrt (\<lambda>a b. js_lt (fst a) (fst b)) example_keys"
    by (simp add: example_defs)
  have n: "2 \<le> length example_keys" by (simp add: example_defs)
  have g: "js_lt (fst (example_keys ! 0)) (Fin 2)" by (simp add: example_defs)
  have l: "js_lt (Fin 2) (fst (example_keys ! (length example_keys - 1)))"
    by (simp add: example_defs)
  from cardinal_stable_tangents [OF ty k s n g l] obtain i s' where
    i: "i + 1 < length example_keys" "js_ge (Fin 2) (fst (example_keys ! i))"
       "js_lt (Fin 2) (fst (example_keys ! (i + 1)))"
    and r: "reset (Fin 2) (example_state CURVE_CARDINAL_STABLE) = Inr s'"
    and m: "let a = left_neighbour example_keys i; b = example_keys ! i;
                c = example_keys ! (i + 1); d = right_neighbour example_keys i;
                s1 = guard_finite (js_div (js_mul (Fin 2) (js_sub (fst c) (fst b)))
                                          (js_sub (fst c) (fst a)));
                s2 = guard_finite (js_div (js_mul (Fin 2) (js_sub (fst c) (fst b)))
                                          (js_sub (fst d) (fst b)))
            in m0 s' = js_mul (js_mul (tension (curve (example_state CURVE_CARDINAL_STABLE))) s1)
                              (js_sub (snd c) (snd a))
             \<and> m1 s' = js_mul (js_mul (tension (curve (example_state CURVE_CARDINAL_STABLE))) s2)
                              (js_sub (snd d) (snd b))"
    by blast
  from i(1) have "i = 0 \<or> i = 1" by (auto simp: example_defs)
  with i(2,3) have "i = 1" by (auto simp: example_defs js_ge_def)
  with m have "m0 s' = Fin (4 / 3) \<and> m1 s' = Fin 1"
    by (simp add: example_defs Let_def left_neighbour_def right_neighbour_def extrapolate_def
          guard_finite_def js_sub_def)
  with r s g l show ?thesis by blast
qed

text \<open>
  C9. For every curve with strictly increasing key times and every time \<open>t\<close> with
  \<open>keys[0].time <= t < keys[len-1].time\<close>, the linear search of \<open>reset\<close> stops at an index
  below \<open>len - 1\<close>, the reads of \<open>keys[index]\<close>, \<open>keys[index + 1]\<close>, of \<open>keys[index - 1]\<close>
  when \<open>index\<close> is not \<open>0\<close> and of \<open>keys[index + 2]\<close> when \<open>index\<close> is not \<open>len - 2\<close> are
  inside the array, and both \<open>_calcTangents\<close> at that index and \<open>reset\<close> return without a
  TypeError.
\<close>

theorem reset_scan_in_bounds:
  assumes "ks = keys (curve s)"
    and "sorted_wrt (\<lambda>a b. js_lt (fst a) (fst b)) ks"
    and "ks \<noteq> []"
    and "js_ge t (fst (ks ! 0))"
    and "js_lt t (fst (ks ! (length ks - 1)))"
  shows "\<exists>index. reset_scan ks t 0 = Inr index \<and> index < length ks - 1
           \<and> (\<exists>b. key_at ks index = Inr b)
           \<and> (\<exists>c. key_at ks (index + 1) = Inr c)
           \<and> (index \<noteq> 0 \<longrightarrow> (\<exists>a. key_at ks (index - 1) = Inr a))
           \<and> (index + 2 \<noteq> length ks \<longrightarrow> (\<exists>d. key_at ks (index + 2) = Inr d))
           \<and> (\<exists>s'. calcTangents ks index s = Inr s')
           \<and> (\<exists>s'. reset t s = Inr s')"
proof -
  from assms(5) have nge: "\<not> js_ge t (fst (ks ! (length ks - 1)))"
    by (simp add: js_ge_def)
  have "length ks \<noteq> 1"
  proof
    assume "length ks = 1"
    with assms(4) assms(5) show False by (simp add: js_ge_def)
  qed
  with assms(3) have "0 + 1 < length ks" by (cases ks) auto
  from reset_scan_result [OF this nge] obtain j where
    j: "reset_scan ks t 0 = Inr j" "j + 1 < length ks" by blast
  from assms(4) have nlt: "\<not> js_lt t (fst (ks ! 0))" by (simp add: js_ge_def)
  from reset_inside [of s t j] assms(1,3) nlt nge j(1)
  obtain s' where "reset t s = Inr s'" by auto
  with j calcTangents_total [OF j(2), of s] show ?thesis by (auto simp: key_at_def)
qed


theorem reset_scan_in_bounds_witness:
  "sorted_wrt (\<lambda>a b. js_lt (fst a) (fst b)) example_keys
   \<and> js_ge (Fin 2) (fst (example_keys ! 0))
   \<and> js_lt (Fin 2) (fst (example_keys ! (length example_keys - 1)))
   \<and> reset_scan example_keys (Fin 2) 0 = Inr 1
   \<and> (\<exists>s'. reset (Fin 2) (example_state CURVE_CATMULL) = Inr s')"
proof -
  have k: "example_keys = keys (curve (example_state CURVE_CATMULL))"
    by (simp add: example_defs)
  have s: "sorted_wrt (\<lambda>a b. js_lt (fst a) (fst b)) example_keys"
    by (simp add: example_defs)
  have n: "example_keys \<noteq> []" by (simp add: example_defs)
  have g: "js_ge (Fin 2) (fst (example_keys ! 0))" by (simp add: example_defs js_ge_def)
  have l: "js_lt (Fin 2) (fst (example_keys ! (length example_keys - 1)))"
    by (simp add: example_defs)
  from reset_scan_in_bounds [OF k s n g l] obtain index where
    i: "reset_scan example_keys (Fin 2) 0 = Inr index"
       "\<exists>s'. reset (Fin 2) (example_state CURVE_CATMULL) = Inr s'"
    by blast
  have "reset_scan example_keys (Fin 2) 0 = Inr 1"
    by (simp add: example_defs reset_scan.simps js_ge_def)
  with i s g l show ?thesis by simp
qed

text \<open>
  C10. For every curve whose key times are numbers (none is NaN; the keys need not be
  sorted) and every finite time \<open>t\<close>, \<open>reset(t)\<close> returns and afterwards
  \<open>left <= time_ < right\<close>. For the empty curve the span is \<open>(-Infinity, +Infinity)\<close>; for
  \<open>t\<close> before the first key it is \<open>(-Infinity, keys[0].time)\<close>; for \<open>t\<close> at or past the last
  key (and not before the first, the test the code makes first) it is
  \<open>[keys[len-1].time, +Infinity)\<close>.
\<close>

theorem reset_span_invariant:
  assumes "\<forall>k\<in>set (keys (curve s)). fst k \<noteq> NaN"
  shows "\<exists>s'. reset (Fin x) s = Inr s' \<and> time' s' = Fin x
           \<and> js_ge (time' s') (left s') \<and> js_lt (time' s') (right s')
           \<and> (keys (curve s) = [] \<longrightarrow> left s' = NegInf \<and> right s' = PosInf)
           \<and> (keys (curve s) \<noteq> [] \<and> js_lt (Fin x) (fst (keys (curve s) ! 0)) \<longrightarrow>
                 left s' = NegInf \<and> right s' = fst (keys (curve s) ! 0))
           \<and> (keys (curve s) \<noteq> [] \<and> \<not> js_lt (Fin x) (fst (keys (curve s) ! 0))
                \<and> js_ge (Fin x) (fst (keys (curve s) ! (length (keys (curve s)) - 1))) \<longrightarrow>
                 left s' = fst (keys (curve s) ! (length (keys (curve s)) - 1))
                 \<and> right s' = PosInf)"
  using assms by (rule reset_span)

theorem reset_span_invariant_witness:
  "NaN \<notin> set (map fst (keys (curve (example_state CURVE_LINEAR))))
   \<and> (\<exists>s'. reset (Fin 2) (example_state CURVE_LINEAR) = Inr s' \<and> time' s' = Fin 2
           \<and> js_ge (time' s') (left s') \<and> js_lt (time' s') (right s'))"
proof -
  have h: "\<forall>k\<in>set (keys (curve (example_state CURVE_LINEAR))). fst k \<noteq> NaN"
    by (simp add: example_defs)
  from reset_span_invariant [OF h, of 2] obtain s' where
    "reset (Fin 2) (example_state CURVE_LINEAR) = Inr s'" "time' s' = Fin 2"
    "js_ge (time' s') (left s')" "js_lt (time' s') (right s')"
    by blast
  moreover have "NaN \<notin> set (map fst (keys (curve (example_state CURVE_LINEAR))))"
    by (simp add: example_defs)
  ultimately show ?thesis by blast
qed

end
